theory Spec2Isabelle
  imports Main "HOL-Library.Word"
begin

section \<open>Data model\<close>

text \<open>
  A limit-order matching engine for one instrument (C++). The classes are
  \<^verbatim>\<open>Order\<close> (Order.h), \<^verbatim>\<open>Trade\<close> (Trade.h), \<^verbatim>\<open>PriceLevel\<close> and \<^verbatim>\<open>OrderBook\<close>
  (OrderBook.h, OrderBook.cpp) and \<^verbatim>\<open>MatchingEngine\<close> (MatchingEngine.h,
  MatchingEngine.cpp).

  Every \<^verbatim>\<open>uint64_t\<close> is a 64-bit word: \<open>+\<close>, \<open>-\<close> and \<open>*\<close> wrap around, \<open><\<close> and
  \<open>\<le>\<close> compare unsigned. Orders are shared between the id index and the queues of
  the price levels through \<^verbatim>\<open>std::shared_ptr<Order>\<close>, and the matching loop mutates
  a resting order through such a pointer, so the orders live in an explicit store:
  a non-null pointer is an address, the store maps every address to the \<^verbatim>\<open>Order\<close>
  object it points to, and a pointer that may be null is an \<open>addr option\<close>.
\<close>

type_synonym u64 = "64 word"

type_synonym addr = nat

type_synonym OrderID = u64

type_synonym TimePoint = int

datatype OrderSide = BUY | SELL

datatype OrderType = LIMIT | MARKET

text \<open>
  The fields of \<^verbatim>\<open>Order\<close> are private and named \<^verbatim>\<open>id_\<close>, \<^verbatim>\<open>side_\<close>, ...; the record
  fields carry the names of their public getters.
\<close>

record Order =
  getId :: OrderID
  getSide :: OrderSide
  getPrice :: u64
  getQuantity :: u64
  getRemainingQuantity :: u64
  getTimestamp :: TimePoint
  getType :: OrderType

type_synonym heap = "addr \<Rightarrow> Order"

text \<open>The constructor \<^verbatim>\<open>Order::Order(id, side, price, quantity, timestamp)\<close>.\<close>

definition Order_new :: "OrderID \<Rightarrow> OrderSide \<Rightarrow> u64 \<Rightarrow> u64 \<Rightarrow> TimePoint \<Rightarrow> Order" where
  "Order_new i sd p q ts =
     \<lparr>getId = i, getSide = sd, getPrice = p, getQuantity = q,
      getRemainingQuantity = q, getTimestamp = ts, getType = LIMIT\<rparr>"

definition isFilled :: "Order \<Rightarrow> bool" where
  "isFilled ord = (getRemainingQuantity ord = 0)"

text \<open>
  \<^verbatim>\<open>Order::reduceQuantity\<close> subtracts \<open>min qty remaining\<close>; the model returns the
  updated object (the returned amount is unused by every caller).
\<close>

definition reduceQuantity :: "u64 \<Rightarrow> Order \<Rightarrow> Order" where
  "reduceQuantity qty ord =
     (let actual_reduction = min qty (getRemainingQuantity ord)
      in ord\<lparr>getRemainingQuantity := getRemainingQuantity ord - actual_reduction\<rparr>)"

text \<open>
  \<^verbatim>\<open>Trade\<close>: the timestamp of a trade is read from the clock at execution and nothing
  in the engine depends on it; it is left out.
\<close>

record Trade =
  buy_order_id :: OrderID
  sell_order_id :: OrderID
  price :: u64
  quantity :: u64

record PriceLevel =
  level_price :: u64
  total_quantity :: u64
  orders :: "addr list"

text \<open>
  \<^verbatim>\<open>std::map<uint64_t, PriceLevel>\<close>: an association list kept in ascending key
  order, so that \<^verbatim>\<open>begin()\<close> is the head and \<^verbatim>\<open>rbegin()\<close> the last element.
  \<^verbatim>\<open>find\<close> is \<open>map_of\<close>.
\<close>

type_synonym PriceLevelMap = "(u64 \<times> PriceLevel) list"

text \<open>\<^verbatim>\<open>m[k] = v\<close>, and the write-back of an entry modified in place.\<close>

fun map_assign :: "u64 \<Rightarrow> PriceLevel \<Rightarrow> PriceLevelMap \<Rightarrow> PriceLevelMap" where
  "map_assign k v [] = [(k, v)]"
| "map_assign k v ((k', v') # m) =
     (if k < k' then (k, v) # (k', v') # m
      else if k = k' then (k, v) # m
      else (k', v') # map_assign k v m)"

fun map_erase :: "u64 \<Rightarrow> PriceLevelMap \<Rightarrow> PriceLevelMap" where
  "map_erase k [] = []"
| "map_erase k ((k', v') # m) = (if k = k' then m else (k', v') # map_erase k m)"

text \<open>
  \<^verbatim>\<open>OrderBook\<close>: the two price maps and the id index
  (\<^verbatim>\<open>std::unordered_map<OrderID, std::shared_ptr<Order>>\<close>). The mutex is not
  modelled: the operations run one after the other.
\<close>

record OrderBook =
  bids :: PriceLevelMap
  asks :: PriceLevelMap
  order_map :: "OrderID \<Rightarrow> addr option"

text \<open>
  The engine and the store it works on. \<open>next_free\<close> is the allocation pointer of
  the store: the addresses below it hold the orders created so far.
  \<open>order_callback\<close> tells whether an order callback is registered, and
  \<open>order_callback_calls\<close> records the argument of every call made to it. The CSV
  log, the console output and the trade callback only report the trades that
  \<open>trades\<close> holds.
\<close>

record state =
  heap :: heap
  next_free :: addr
  order_book :: OrderBook
  trades :: "Trade list"
  trade_count :: u64
  total_volume :: u64
  total_value :: u64
  order_callback :: bool
  order_callback_calls :: "addr option list"

section \<open>PriceLevel\<close>

definition PriceLevel_new :: "u64 \<Rightarrow> PriceLevel" where
  "PriceLevel_new p = \<lparr>level_price = p, total_quantity = 0, orders = []\<rparr>"

definition PriceLevel_addOrder :: "heap \<Rightarrow> addr \<Rightarrow> PriceLevel \<Rightarrow> PriceLevel" where
  "PriceLevel_addOrder h a lvl =
     lvl\<lparr>orders := orders lvl @ [a],
         total_quantity := total_quantity lvl + getRemainingQuantity (h a)\<rparr>"

text \<open>
  The scan of \<^verbatim>\<open>PriceLevel::removeOrder\<close>: the first order of the queue with the id,
  and the queue without it.
\<close>

fun remove_scan :: "heap \<Rightarrow> OrderID \<Rightarrow> addr list \<Rightarrow> (addr \<times> addr list) option" where
  "remove_scan h oid [] = None"
| "remove_scan h oid (a # as) =
     (if getId (h a) = oid then Some (a, as)
      else (case remove_scan h oid as of
              None \<Rightarrow> None
            | Some (b, bs) \<Rightarrow> Some (b, a # bs)))"

definition PriceLevel_removeOrder :: "heap \<Rightarrow> OrderID \<Rightarrow> PriceLevel \<Rightarrow> bool \<times> PriceLevel" where
  "PriceLevel_removeOrder h oid lvl =
     (case remove_scan h oid (orders lvl) of
        None \<Rightarrow> (False, lvl)
      | Some (a, rest) \<Rightarrow>
          (True, lvl\<lparr>total_quantity := total_quantity lvl - getRemainingQuantity (h a),
                     orders := rest\<rparr>))"

definition PriceLevel_updateQuantity :: "OrderID \<Rightarrow> u64 \<Rightarrow> u64 \<Rightarrow> PriceLevel \<Rightarrow> PriceLevel" where
  "PriceLevel_updateQuantity oid old_qty new_qty lvl =
     lvl\<lparr>total_quantity := total_quantity lvl - old_qty + new_qty\<rparr>"

definition PriceLevel_isEmpty :: "PriceLevel \<Rightarrow> bool" where
  "PriceLevel_isEmpty lvl = (orders lvl = [])"

section \<open>OrderBook\<close>

definition OrderBook_new :: OrderBook where
  "OrderBook_new = \<lparr>bids = [], asks = [], order_map = (\<lambda>_. None)\<rparr>"

definition getPriceLevelMap :: "OrderSide \<Rightarrow> OrderBook \<Rightarrow> PriceLevelMap" where
  "getPriceLevelMap sd b = (if sd = BUY then bids b else asks b)"

text \<open>Writing through the reference that \<^verbatim>\<open>getPriceLevelMap\<close> returns.\<close>

definition setPriceLevelMap :: "OrderSide \<Rightarrow> PriceLevelMap \<Rightarrow> OrderBook \<Rightarrow> OrderBook" where
  "setPriceLevelMap sd m b = (if sd = BUY then b\<lparr>bids := m\<rparr> else b\<lparr>asks := m\<rparr>)"

definition OrderBook_addOrder :: "heap \<Rightarrow> addr option \<Rightarrow> OrderBook \<Rightarrow> bool \<times> OrderBook" where
  "OrderBook_addOrder h ptr b =
     (case ptr of
        None \<Rightarrow> (False, b)
      | Some a \<Rightarrow>
          let ord = h a;
              b1 = b\<lparr>order_map := (order_map b)(getId ord \<mapsto> a)\<rparr>;
              price_map = getPriceLevelMap (getSide ord) b1;
              lvl = (case map_of price_map (getPrice ord) of
                       Some l \<Rightarrow> PriceLevel_addOrder h a l
                     | None \<Rightarrow> PriceLevel_addOrder h a (PriceLevel_new (getPrice ord)))
          in (True, setPriceLevelMap (getSide ord) (map_assign (getPrice ord) lvl price_map) b1))"

definition removeEmptyPriceLevel :: "OrderSide \<Rightarrow> u64 \<Rightarrow> OrderBook \<Rightarrow> OrderBook" where
  "removeEmptyPriceLevel sd p b =
     (let price_map = getPriceLevelMap sd b
      in case map_of price_map p of
           None \<Rightarrow> b
         | Some lvl \<Rightarrow>
             if PriceLevel_isEmpty lvl then setPriceLevelMap sd (map_erase p price_map) b
             else b)"

definition OrderBook_cancelOrder :: "heap \<Rightarrow> OrderID \<Rightarrow> OrderBook \<Rightarrow> bool \<times> OrderBook" where
  "OrderBook_cancelOrder h oid b =
     (case order_map b oid of
        None \<Rightarrow> (False, b)
      | Some a \<Rightarrow>
          let ord = h a;
              price_map = getPriceLevelMap (getSide ord) b;
              b1 = (case map_of price_map (getPrice ord) of
                      None \<Rightarrow> b
                    | Some lvl \<Rightarrow>
                        let (removed, lvl') = PriceLevel_removeOrder h oid lvl;
                            b' = setPriceLevelMap (getSide ord)
                                   (map_assign (getPrice ord) lvl' price_map) b
                        in if removed \<and> PriceLevel_isEmpty lvl'
                           then removeEmptyPriceLevel (getSide ord) (getPrice ord) b'
                           else b')
          in (True, b1\<lparr>order_map := (order_map b1)(oid := None)\<rparr>))"

definition getBestBid :: "OrderBook \<Rightarrow> u64" where
  "getBestBid b = (if bids b = [] then 0 else fst (last (bids b)))"

definition getBestAsk :: "OrderBook \<Rightarrow> u64" where
  "getBestAsk b = (if asks b = [] then 0 else fst (hd (asks b)))"

definition getBestBidQuantity :: "OrderBook \<Rightarrow> u64" where
  "getBestBidQuantity b = (if bids b = [] then 0 else total_quantity (snd (last (bids b))))"

definition getBestAskQuantity :: "OrderBook \<Rightarrow> u64" where
  "getBestAskQuantity b = (if asks b = [] then 0 else total_quantity (snd (hd (asks b))))"

definition getOrder :: "OrderID \<Rightarrow> OrderBook \<Rightarrow> addr option" where
  "getOrder oid b = order_map b oid"

definition getOrdersForMatching :: "OrderSide \<Rightarrow> OrderBook \<Rightarrow> addr list" where
  "getOrdersForMatching sd b =
     (let price_map = getPriceLevelMap sd b
      in if price_map = [] then []
         else if sd = BUY then orders (snd (last price_map))
         else orders (snd (hd price_map)))"

definition updateOrderQuantity :: "heap \<Rightarrow> OrderID \<Rightarrow> u64 \<Rightarrow> u64 \<Rightarrow> OrderBook \<Rightarrow> OrderBook" where
  "updateOrderQuantity h oid old_qty new_qty b =
     (case order_map b oid of
        None \<Rightarrow> b
      | Some a \<Rightarrow>
          let ord = h a;
              price_map = getPriceLevelMap (getSide ord) b
          in case map_of price_map (getPrice ord) of
               None \<Rightarrow> b
             | Some lvl \<Rightarrow>
                 setPriceLevelMap (getSide ord)
                   (map_assign (getPrice ord)
                      (PriceLevel_updateQuantity oid old_qty new_qty lvl) price_map) b)"

section \<open>MatchingEngine\<close>

text \<open>The constructor: an empty book, no trades; \<open>cb\<close> tells whether an order
  callback is registered with \<^verbatim>\<open>setOrderCallback\<close> before the engine is used.\<close>

definition MatchingEngine_new :: "bool \<Rightarrow> state" where
  "MatchingEngine_new cb =
     \<lparr>heap = (\<lambda>_. Order_new 0 BUY 0 0 0), next_free = 0, order_book = OrderBook_new,
      trades = [], trade_count = 0, total_volume = 0, total_value = 0,
      order_callback = cb, order_callback_calls = []\<rparr>"

definition notifyOrderCallback :: "addr option \<Rightarrow> state \<Rightarrow> state" where
  "notifyOrderCallback ptr s =
     (if order_callback s then s\<lparr>order_callback_calls := order_callback_calls s @ [ptr]\<rparr>
      else s)"

definition executeTrade :: "addr \<Rightarrow> addr \<Rightarrow> u64 \<Rightarrow> u64 \<Rightarrow> state \<Rightarrow> state" where
  "executeTrade buy_order sell_order trade_price trade_quantity s =
     (let (bo, so) = (if getSide (heap s buy_order) \<noteq> BUY then (sell_order, buy_order)
                      else (buy_order, sell_order));
          trade = \<lparr>buy_order_id = getId (heap s bo), sell_order_id = getId (heap s so),
                   price = trade_price, quantity = trade_quantity\<rparr>
      in s\<lparr>trades := trades s @ [trade],
           trade_count := trade_count s + 1,
           total_volume := total_volume s + trade_quantity,
           total_value := total_value s + trade_price * trade_quantity\<rparr>)"

text \<open>
  The inner \<^verbatim>\<open>for\<close> loop of \<^verbatim>\<open>matchOrder\<close> over the snapshot of the best opposing
  level, with its two variables \<open>best_match\<close> and \<open>best_price\<close>. The queues never
  hold a null pointer, so the snapshot is a list of addresses.
\<close>

fun find_best_match :: "heap \<Rightarrow> addr \<Rightarrow> addr list \<Rightarrow> addr option \<times> u64 \<Rightarrow> addr option \<times> u64" where
  "find_best_match h a [] acc = acc"
| "find_best_match h a (c # cs) (best_match, best_price) =
     (if isFilled (h c) then find_best_match h a cs (best_match, best_price)
      else
        let (price_compatible, best_price') =
              (if getSide (h a) = BUY \<and> getSide (h c) = SELL \<and> getPrice (h c) \<le> getPrice (h a)
               then (True, getPrice (h c))
               else if getSide (h a) = SELL \<and> getSide (h c) = BUY \<and> getPrice (h a) \<le> getPrice (h c)
               then (True, getPrice (h c))
               else (False, best_price));
            best_match' =
              (if price_compatible \<and>
                  (case best_match of
                     None \<Rightarrow> True
                   | Some b \<Rightarrow> getTimestamp (h c) < getTimestamp (h b))
               then Some c else best_match)
        in find_best_match h a cs (best_match', best_price'))"

text \<open>
  The statements of the body of the \<^verbatim>\<open>while\<close> loop of \<^verbatim>\<open>matchOrder\<close> that follow
  \<^verbatim>\<open>executeTrade\<close>, each on the state the previous one leaves:
  \<^verbatim>\<open>o->reduceQuantity(trade_quantity)\<close>;
  \<^verbatim>\<open>order_book_.updateOrderQuantity(o->getId(), o->getRemainingQuantity() + trade_quantity, o->getRemainingQuantity())\<close>;
  and the removal of a filled \<open>best_match\<close> with its notification.
\<close>

definition reduce_order :: "addr \<Rightarrow> u64 \<Rightarrow> state \<Rightarrow> state" where
  "reduce_order a trade_quantity s =
     s\<lparr>heap := (heap s)(a := reduceQuantity trade_quantity (heap s a))\<rparr>"

definition update_book_quantity :: "addr \<Rightarrow> u64 \<Rightarrow> state \<Rightarrow> state" where
  "update_book_quantity a trade_quantity s =
     s\<lparr>order_book :=
         updateOrderQuantity (heap s) (getId (heap s a))
           (getRemainingQuantity (heap s a) + trade_quantity)
           (getRemainingQuantity (heap s a)) (order_book s)\<rparr>"

definition remove_if_filled :: "addr \<Rightarrow> state \<Rightarrow> state" where
  "remove_if_filled b s =
     (if isFilled (heap s b)
      then notifyOrderCallback (Some b)
             (s\<lparr>order_book :=
                  snd (OrderBook_cancelOrder (heap s) (getId (heap s b)) (order_book s))\<rparr>)
      else s)"

text \<open>
  One pass through the body of the \<^verbatim>\<open>while\<close> loop of \<^verbatim>\<open>matchOrder\<close>, entered with an
  order that is not filled: \<open>None\<close> is a \<^verbatim>\<open>break\<close>, \<open>Some\<close> the state after the trade.
\<close>

definition match_iteration :: "addr \<Rightarrow> state \<Rightarrow> state option" where
  "match_iteration a s =
     (let opposing_side = (if getSide (heap s a) = BUY then SELL else BUY);
          opposing_orders = getOrdersForMatching opposing_side (order_book s)
      in if opposing_orders = [] then None
         else case find_best_match (heap s) a opposing_orders (None, 0) of
                (None, best_price) \<Rightarrow> None
              | (Some b, best_price) \<Rightarrow>
                  let trade_quantity = min (getRemainingQuantity (heap s a))
                                           (getRemainingQuantity (heap s b))
                  in Some (remove_if_filled b
                            (update_book_quantity b trade_quantity
                              (update_book_quantity a trade_quantity
                                (reduce_order b trade_quantity
                                  (reduce_order a trade_quantity
                                    (executeTrade a b best_price trade_quantity s)))))))"

text \<open>
  The same pass up to the return of \<^verbatim>\<open>executeTrade\<close>: the trade is in \<^verbatim>\<open>trades_\<close>,
  the counters are updated and \<^verbatim>\<open>notifyTradeCallback(trade)\<close> has been called, and
  \<^verbatim>\<open>reduceQuantity\<close> has run on neither order yet. This is the state that a trade
  callback finds when it reads \<^verbatim>\<open>getTrades()\<close> and the orders.
\<close>

definition iteration_executeTrade :: "addr \<Rightarrow> state \<Rightarrow> state option" where
  "iteration_executeTrade a s =
     (let opposing_side = (if getSide (heap s a) = BUY then SELL else BUY);
          opposing_orders = getOrdersForMatching opposing_side (order_book s)
      in if opposing_orders = [] then None
         else case find_best_match (heap s) a opposing_orders (None, 0) of
                (None, best_price) \<Rightarrow> None
              | (Some b, best_price) \<Rightarrow>
                  let trade_quantity = min (getRemainingQuantity (heap s a))
                                           (getRemainingQuantity (heap s b))
                  in Some (executeTrade a b best_price trade_quantity s))"

text \<open>
  The snapshot \<^verbatim>\<open>order_book_.getOrdersForMatching(opposing_side)\<close> that an
  iteration for the order at \<open>a\<close> scans.
\<close>

definition opposing :: "addr \<Rightarrow> state \<Rightarrow> addr list" where
  "opposing a s =
     getOrdersForMatching (if getSide (heap s a) = BUY then SELL else BUY) (order_book s)"

subsection \<open>The loop terminates\<close>

text \<open>
  A pass that does not break trades a positive quantity, so the remaining quantity of
  the incoming order strictly decreases: \<^verbatim>\<open>matchOrder\<close> is a total function.
\<close>

function matchOrder_loop :: "addr \<Rightarrow> u64 \<times> state \<Rightarrow> u64 \<times> state" where
  "matchOrder_loop a (trades_executed, s) =
     (if isFilled (heap s a) then (trades_executed, s)
      else case match_iteration a s of
             None \<Rightarrow> (trades_executed, s)
           | Some s' \<Rightarrow> matchOrder_loop a (trades_executed + 1, s'))"
  by pat_completeness auto

termination
proof (relation "measure (\<lambda>(a, n, s). unat (getRemainingQuantity (heap s a)))")
  show "wf (measure (\<lambda>(a, n, s). unat (getRemainingQuantity (heap s a))))"
    by simp
next
  fix a :: addr and trades_executed :: u64 and s s' :: state
  assume nf: "\<not> isFilled (heap s a)" and it: "match_iteration a s = Some s'"
  have scan: "fst acc = Some b \<or>
      b \<in> set cs \<and> \<not> isFilled (heap s b) \<and> getSide (heap s b) \<noteq> getSide (heap s a)"
    if "find_best_match (heap s) a cs acc = (Some b, bp)" for cs acc b bp
    using that
  proof (induction cs arbitrary: acc)
    case Nil
    then show ?case by simp
  next
    case (Cons c cs)
    obtain bm p where acc: "acc = (bm, p)" by (cases acc)
    show ?case
    proof (cases "isFilled (heap s c)")
      case True
      with Cons.prems acc have "find_best_match (heap s) a cs acc = (Some b, bp)" by simp
      from Cons.IH [OF this] show ?thesis by auto
    next
      case False
      with Cons.prems acc obtain acc' where
        step: "find_best_match (heap s) a cs acc' = (Some b, bp)" and
        acc': "fst acc' = bm \<or> fst acc' = Some c \<and> getSide (heap s c) \<noteq> getSide (heap s a)"
        by (auto simp: Let_def split: if_splits prod.splits)
      from Cons.IH [OF step] acc' acc False show ?thesis by auto
    qed
  qed
  define q where "q = (\<lambda>b. min (getRemainingQuantity (heap s a)) (getRemainingQuantity (heap s b)))"
  from it obtain b bp where
    fbm: "find_best_match (heap s) a (opposing a s) (None, 0) = (Some b, bp)" and
    s': "s' = remove_if_filled b
              (update_book_quantity b (q b)
                (update_book_quantity a (q b)
                  (reduce_order b (q b)
                    (reduce_order a (q b) (executeTrade a b bp (q b) s)))))"
    unfolding match_iteration_def opposing_def Let_def q_def
    by (simp split: if_splits prod.splits option.splits)
  from scan [OF fbm] have b: "\<not> isFilled (heap s b)" "b \<noteq> a" by auto
  from s' b(2) have "heap s' a = reduceQuantity (q b) (heap s a)"
    by (simp add: remove_if_filled_def update_book_quantity_def reduce_order_def
        executeTrade_def notifyOrderCallback_def Let_def split: prod.splits)
  moreover from nf b(1) have "q b \<noteq> 0" "q b \<le> getRemainingQuantity (heap s a)"
    by (auto simp: q_def isFilled_def min_def)
  ultimately have "unat (getRemainingQuantity (heap s' a)) < unat (getRemainingQuantity (heap s a))"
    by (simp add: reduceQuantity_def Let_def min_absorb1 unat_sub word_le_nat_alt
        unat_gt_0 [symmetric])
  then show "((a, trades_executed + 1, s'), (a, trades_executed, s))
      \<in> measure (\<lambda>(a, n, s). unat (getRemainingQuantity (heap s a)))"
    by simp
qed

definition matchOrder :: "addr \<Rightarrow> state \<Rightarrow> u64 \<times> state" where
  "matchOrder a s = matchOrder_loop a (0, s)"

definition submitOrder :: "addr option \<Rightarrow> state \<Rightarrow> bool \<times> state" where
  "submitOrder ptr s =
     (case ptr of
        None \<Rightarrow> (False, s)
      | Some a \<Rightarrow>
          let s1 = snd (matchOrder a s)
          in (True,
              if \<not> isFilled (heap s1 a)
              then notifyOrderCallback (Some a)
                     (s1\<lparr>order_book :=
                           snd (OrderBook_addOrder (heap s1) (Some a) (order_book s1))\<rparr>)
              else s1))"

definition cancelOrder :: "OrderID \<Rightarrow> state \<Rightarrow> bool \<times> state" where
  "cancelOrder oid s =
     (let (cancelled, b) = OrderBook_cancelOrder (heap s) oid (order_book s);
          s1 = s\<lparr>order_book := b\<rparr>
      in (cancelled,
          if cancelled then notifyOrderCallback (getOrder oid (order_book s1)) s1 else s1))"

section \<open>Sequences of operations\<close>

text \<open>
  A caller creates an order with \<^verbatim>\<open>std::make_shared<Order>(id, side, price, quantity,
  timestamp)\<close> and hands the pointer to \<^verbatim>\<open>submitOrder\<close>, or cancels by id.
  \<open>make_shared\<close> takes the next free address of the store.
\<close>

datatype op = Submit OrderID OrderSide u64 u64 TimePoint | Cancel OrderID

definition make_shared :: "Order \<Rightarrow> state \<Rightarrow> addr \<times> state" where
  "make_shared ord s =
     (next_free s, s\<lparr>heap := (heap s)(next_free s := ord), next_free := Suc (next_free s)\<rparr>)"

fun exec :: "state \<Rightarrow> op \<Rightarrow> state" where
  "exec s (Submit i sd p q ts) =
     (let (a, s1) = make_shared (Order_new i sd p q ts) s in snd (submitOrder (Some a) s1))"
| "exec s (Cancel i) = snd (cancelOrder i s)"

definition run :: "bool \<Rightarrow> op list \<Rightarrow> state" where
  "run cb ops = foldl exec (MatchingEngine_new cb) ops"

fun submitted_ids :: "op list \<Rightarrow> OrderID list" where
  "submitted_ids [] = []"
| "submitted_ids (Submit i sd p q ts # ops) = i # submitted_ids ops"
| "submitted_ids (Cancel i # ops) = submitted_ids ops"


section \<open>Notions of the verification\<close>

text \<open>
  The predicates and auxiliary functions in which the invariants and the claims are
  stated. None of them is part of the program.
\<close>

subsection \<open>The book seen as two finite maps from prices to levels\<close>

text \<open>
  \<open>lv b sd p\<close> is the level that \<^verbatim>\<open>find(p)\<close> returns in the map of side \<open>sd\<close>;
  \<open>maps_sorted\<close> says that the keys of both maps ascend strictly, as the keys of a
  \<^verbatim>\<open>std::map\<close> do.
\<close>

definition lv :: "OrderBook \<Rightarrow> OrderSide \<Rightarrow> u64 \<Rightarrow> PriceLevel option" where
  "lv b sd = map_of (getPriceLevelMap sd b)"

definition maps_sorted :: "OrderBook \<Rightarrow> bool" where
  "maps_sorted b = (\<forall>sd. sorted_wrt (<) (map fst (getPriceLevelMap sd b)))"

subsection \<open>Invariants of the book\<close>

text \<open>
  \<open>levels_ok\<close>: every level of the book has a non-empty queue without repetition, and
  each order of the queue is on the side and at the price of the level and is the
  order that the index holds for its id. \<open>index_ok\<close>: every order of the index is
  stored under its own id and is in the queue of the level at its price on its side.
  \<open>totals_ok\<close>: the aggregate of a level is the sum, in 64-bit arithmetic, of the
  remaining quantities of its queue. \<open>unfilled\<close>: no order of the index is filled.
  \<open>no_cross\<close>: every bid price is strictly below every ask price.
\<close>

definition levels_ok :: "heap \<Rightarrow> OrderBook \<Rightarrow> bool" where
  "levels_ok h b =
     (\<forall>sd p l. lv b sd p = Some l \<longrightarrow>
        orders l \<noteq> [] \<and> distinct (orders l) \<and>
        (\<forall>a\<in>set (orders l).
           getSide (h a) = sd \<and> getPrice (h a) = p \<and> order_map b (getId (h a)) = Some a))"

definition index_ok :: "heap \<Rightarrow> OrderBook \<Rightarrow> bool" where
  "index_ok h b =
     (\<forall>i a. order_map b i = Some a \<longrightarrow>
        getId (h a) = i \<and>
        (\<exists>l. lv b (getSide (h a)) (getPrice (h a)) = Some l \<and> a \<in> set (orders l)))"

definition totals_ok :: "heap \<Rightarrow> OrderBook \<Rightarrow> bool" where
  "totals_ok h b =
     (\<forall>sd p l. lv b sd p = Some l \<longrightarrow>
        total_quantity l = sum_list (map (\<lambda>a. getRemainingQuantity (h a)) (orders l)))"

definition unfilled :: "heap \<Rightarrow> OrderBook \<Rightarrow> bool" where
  "unfilled h b = (\<forall>i a. order_map b i = Some a \<longrightarrow> \<not> isFilled (h a))"

definition no_cross :: "OrderBook \<Rightarrow> bool" where
  "no_cross b =
     (\<forall>pb lb pa la. lv b BUY pb = Some lb \<longrightarrow> lv b SELL pa = Some la \<longrightarrow> pb < pa)"

definition book_ok :: "heap \<Rightarrow> OrderBook \<Rightarrow> bool" where
  "book_ok h b = (maps_sorted b \<and> levels_ok h b \<and> index_ok h b \<and> totals_ok h b)"

subsection \<open>The scan and the trade of one pass\<close>

text \<open>
  \<open>compatible x y\<close> is the test \<open>price_compatible\<close> of the scan for an incoming order
  \<open>x\<close> and a resting order \<open>y\<close>; a \<open>candidate\<close> is an order that the scan does not skip.
\<close>

definition compatible :: "Order \<Rightarrow> Order \<Rightarrow> bool" where
  "compatible x y =
     (getSide x = BUY \<and> getSide y = SELL \<and> getPrice y \<le> getPrice x \<or>
      getSide x = SELL \<and> getSide y = BUY \<and> getPrice x \<le> getPrice y)"

definition candidate :: "heap \<Rightarrow> addr \<Rightarrow> addr \<Rightarrow> bool" where
  "candidate h a c = (\<not> isFilled (h c) \<and> compatible (h a) (h c))"

text \<open>The state after the trade of quantity \<open>q\<close> at price \<open>bp\<close> between the incoming
  order at \<open>a\<close> and the resting order at \<open>m\<close>.\<close>

definition settle :: "addr \<Rightarrow> addr \<Rightarrow> u64 \<Rightarrow> u64 \<Rightarrow> state \<Rightarrow> state" where
  "settle a m bp q s =
     remove_if_filled m
       (update_book_quantity m q
         (update_book_quantity a q
           (reduce_order m q
             (reduce_order a q
               (executeTrade a m bp q s)))))"

text \<open>The other side of the book.\<close>

definition opposite :: "OrderSide \<Rightarrow> OrderSide" where
  "opposite sd = (if sd = BUY then SELL else BUY)"

subsection \<open>Invariants of the engine\<close>

text \<open>The quantity that the trades referring to an id have executed.\<close>

definition traded :: "Trade list \<Rightarrow> OrderID \<Rightarrow> nat" where
  "traded ts i =
     sum_list (map (\<lambda>t. unat (quantity t))
       (filter (\<lambda>t. buy_order_id t = i \<or> sell_order_id t = i) ts))"

text \<open>
  \<open>ids_distinct\<close>: the orders created so far have pairwise different ids.
  \<open>conserved\<close>: for each of them the original quantity is the remaining quantity plus
  the traded quantity.
\<close>

definition ids_distinct :: "state \<Rightarrow> bool" where
  "ids_distinct s =
     (\<forall>a<next_free s. \<forall>c<next_free s. getId (heap s a) = getId (heap s c) \<longrightarrow> a = c)"

definition conserved :: "state \<Rightarrow> bool" where
  "conserved s =
     (\<forall>a<next_free s.
        unat (getQuantity (heap s a)) =
          unat (getRemainingQuantity (heap s a)) + traded (trades s) (getId (heap s a)))"

text \<open>A trade between a maker \<open>m\<close> and a taker \<open>k\<close> created after it.\<close>

definition trade_between :: "heap \<Rightarrow> addr \<Rightarrow> addr \<Rightarrow> Trade \<Rightarrow> bool" where
  "trade_between h m k t =
     (getSide (h m) = opposite (getSide (h k)) \<and> price t = getPrice (h m) \<and>
      buy_order_id t = getId (h (if getSide (h k) = BUY then k else m)) \<and>
      sell_order_id t = getId (h (if getSide (h k) = BUY then m else k)))"

definition trades_ok :: "state \<Rightarrow> bool" where
  "trades_ok s =
     (\<forall>t\<in>set (trades s). \<exists>m k. m < k \<and> k < next_free s \<and> trade_between (heap s) m k t)"

text \<open>\<open>allocated\<close>: the index holds only orders created so far.\<close>

definition allocated :: "state \<Rightarrow> bool" where
  "allocated s = (\<forall>i a. order_map (order_book s) i = Some a \<longrightarrow> a < next_free s)"

definition engine_ok :: "state \<Rightarrow> bool" where
  "engine_ok s =
     (book_ok (heap s) (order_book s) \<and> unfilled (heap s) (order_book s) \<and>
      no_cross (order_book s) \<and> allocated s \<and> ids_distinct s \<and> conserved s \<and> trades_ok s)"

text \<open>While the order at \<open>a\<close> is being matched it is the newest order of the store and
  its id is not in the index.\<close>

definition matching_ok :: "addr \<Rightarrow> state \<Rightarrow> bool" where
  "matching_ok a s =
     (engine_ok s \<and> Suc a = next_free s \<and> order_map (order_book s) (getId (heap s a)) = None)"

subsection \<open>States of a run and of a submission\<close>

text \<open>
  \<open>later x' x\<close>: \<open>x'\<close> is a later state of the order \<open>x\<close>, with the same id, side,
  price, original quantity and timestamp and a remaining quantity that is not larger.
\<close>

definition later :: "Order \<Rightarrow> Order \<Rightarrow> bool" where
  "later x' x =
     (getId x' = getId x \<and> getSide x' = getSide x \<and> getPrice x' = getPrice x \<and>
      getQuantity x' = getQuantity x \<and> getTimestamp x' = getTimestamp x \<and>
      getRemainingQuantity x' \<le> getRemainingQuantity x)"

text \<open>The state in which the loop of \<open>matchOrder\<close> leaves the engine.\<close>

definition after_match :: "addr \<Rightarrow> state \<Rightarrow> state" where
  "after_match a s = snd (matchOrder a s)"

text \<open>The ids of the orders created so far, in the order of their creation.\<close>

definition alloc_ids :: "state \<Rightarrow> OrderID list" where
  "alloc_ids s = map (\<lambda>a. getId (heap s a)) [0..<next_free s]"

text \<open>
  \<open>match_steps k a s\<close> is the state at the head of the \<^verbatim>\<open>while\<close> loop of \<^verbatim>\<open>matchOrder\<close>
  after \<open>k\<close> passes, when the loop is entered in state \<open>s\<close> with the order at \<open>a\<close>
  and makes that many passes; \<open>best_match a s\<close> is the resting order that the scan of
  a pass selects. \<open>queued sd b\<close> lists the orders that rest on side \<open>sd\<close> of the book.
\<close>

fun match_steps :: "nat \<Rightarrow> addr \<Rightarrow> state \<Rightarrow> state option" where
  "match_steps 0 a s = Some s"
| "match_steps (Suc k) a s =
     (if isFilled (heap s a) then None
      else case match_iteration a s of
             None \<Rightarrow> None
           | Some s' \<Rightarrow> match_steps k a s')"

definition best_match :: "addr \<Rightarrow> state \<Rightarrow> addr option" where
  "best_match a s = fst (find_best_match (heap s) a (opposing a s) (None, 0))"

definition queued :: "OrderSide \<Rightarrow> OrderBook \<Rightarrow> addr list" where
  "queued sd b = concat (map (\<lambda>(p, l). orders l) (getPriceLevelMap sd b))"

text \<open>\<open>better sd p p'\<close>: on side \<open>sd\<close> of the book the price \<open>p\<close> has strict priority
  over \<open>p'\<close> (a higher bid, a lower ask).\<close>

definition better :: "OrderSide \<Rightarrow> u64 \<Rightarrow> u64 \<Rightarrow> bool" where
  "better sd p p' = (if sd = BUY then p' < p else p < p')"

section \<open>Verification\<close>

subsection \<open>The passes of the loop\<close>

lemma heap_executeTrade [simp]: "heap (executeTrade x y p q s) = heap s"
  by (simp add: executeTrade_def Let_def split: prod.splits)

lemma heap_notifyOrderCallback [simp]: "heap (notifyOrderCallback p s) = heap s"
  by (simp add: notifyOrderCallback_def)

lemma find_best_match_Some:
  "find_best_match h a cs acc = (Some b, bp) \<Longrightarrow>
     fst acc = Some b \<or>
     (b \<in> set cs \<and> \<not> isFilled (h b) \<and> getSide (h b) \<noteq> getSide (h a))"
proof (induction cs arbitrary: acc)
  case Nil
  then show ?case by simp
next
  case (Cons c cs)
  obtain bm p where acc: "acc = (bm, p)" by (cases acc)
  show ?case
  proof (cases "isFilled (h c)")
    case True
    with Cons.prems acc have "find_best_match h a cs acc = (Some b, bp)" by simp
    from Cons.IH [OF this] show ?thesis by auto
  next
    case False
    with Cons.prems acc obtain acc' where
      step: "find_best_match h a cs acc' = (Some b, bp)" and
      acc': "fst acc' = bm \<or> (fst acc' = Some c \<and> getSide (h c) \<noteq> getSide (h a))"
      by (auto simp: Let_def split: if_splits prod.splits)
    from Cons.IH [OF step] acc' acc False show ?thesis by auto
  qed
qed

lemma heap_reduce_order [simp]:
  "heap (reduce_order a q s) = (heap s)(a := reduceQuantity q (heap s a))"
  by (simp add: reduce_order_def)

lemma heap_update_book_quantity [simp]: "heap (update_book_quantity a q s) = heap s"
  by (simp add: update_book_quantity_def)

lemma heap_remove_if_filled [simp]: "heap (remove_if_filled b s) = heap s"
  by (simp add: remove_if_filled_def)

lemma match_iteration_Some:
  assumes "match_iteration a s = Some s'"
  obtains b bp where
    "opposing a s \<noteq> []"
    "find_best_match (heap s) a (opposing a s) (None, 0) = (Some b, bp)"
    "s' = remove_if_filled b
            (update_book_quantity b (min (getRemainingQuantity (heap s a)) (getRemainingQuantity (heap s b)))
              (update_book_quantity a (min (getRemainingQuantity (heap s a)) (getRemainingQuantity (heap s b)))
                (reduce_order b (min (getRemainingQuantity (heap s a)) (getRemainingQuantity (heap s b)))
                  (reduce_order a (min (getRemainingQuantity (heap s a)) (getRemainingQuantity (heap s b)))
                    (executeTrade a b bp (min (getRemainingQuantity (heap s a)) (getRemainingQuantity (heap s b))) s)))))"
  using assms unfolding match_iteration_def opposing_def Let_def
  by (simp split: if_splits prod.splits option.splits)

lemma match_iteration_heap:
  assumes "match_iteration a s = Some s'"
  shows "\<exists>b q. b \<noteq> a \<and> \<not> isFilled (heap s b) \<and>
           q = min (getRemainingQuantity (heap s a)) (getRemainingQuantity (heap s b)) \<and>
           heap s' = (heap s)(a := reduceQuantity q (heap s a), b := reduceQuantity q (heap s b))"
proof -
  from assms obtain b bp where
    fbm: "find_best_match (heap s) a (opposing a s) (None, 0) = (Some b, bp)" and
    s': "s' = remove_if_filled b
            (update_book_quantity b (min (getRemainingQuantity (heap s a)) (getRemainingQuantity (heap s b)))
              (update_book_quantity a (min (getRemainingQuantity (heap s a)) (getRemainingQuantity (heap s b)))
                (reduce_order b (min (getRemainingQuantity (heap s a)) (getRemainingQuantity (heap s b)))
                  (reduce_order a (min (getRemainingQuantity (heap s a)) (getRemainingQuantity (heap s b)))
                    (executeTrade a b bp (min (getRemainingQuantity (heap s a)) (getRemainingQuantity (heap s b))) s)))))"
    by (rule match_iteration_Some)
  from find_best_match_Some [OF fbm] have b: "\<not> isFilled (heap s b)" "getSide (heap s b) \<noteq> getSide (heap s a)"
    by auto
  then have ne: "b \<noteq> a" by auto
  from s' ne have "heap s' = (heap s)(a := reduceQuantity (min (getRemainingQuantity (heap s a)) (getRemainingQuantity (heap s b))) (heap s a),
       b := reduceQuantity (min (getRemainingQuantity (heap s a)) (getRemainingQuantity (heap s b))) (heap s b))"
    by simp
  with b ne show ?thesis by blast
qed

lemma match_iteration_decreases:
  assumes "\<not> isFilled (heap s a)" and "match_iteration a s = Some s'"
  shows "unat (getRemainingQuantity (heap s' a)) < unat (getRemainingQuantity (heap s a))"
proof -
  from match_iteration_heap [OF assms(2)] obtain b q where
    b: "b \<noteq> a" "\<not> isFilled (heap s b)" and
    q: "q = min (getRemainingQuantity (heap s a)) (getRemainingQuantity (heap s b))" and
    h: "heap s' = (heap s)(a := reduceQuantity q (heap s a), b := reduceQuantity q (heap s b))"
    by blast
  from assms(1) b(2) q have q0: "q \<noteq> 0" and qle: "q \<le> getRemainingQuantity (heap s a)"
    by (auto simp: isFilled_def min_def)
  from h b(1) have "getRemainingQuantity (heap s' a) = getRemainingQuantity (heap s a) - q"
    using qle by (simp add: reduceQuantity_def Let_def min_absorb1)
  moreover from q0 qle have "unat (getRemainingQuantity (heap s a) - q) < unat (getRemainingQuantity (heap s a))"
    by (simp add: unat_sub word_le_nat_alt unat_gt_0 [symmetric])
  ultimately show ?thesis by simp
qed

subsection \<open>The ordered map\<close>

lemma map_of_map_assign: "map_of (map_assign k v m) = (map_of m)(k \<mapsto> v)"
  by (induction m) (auto simp: fun_upd_twist)

lemma keys_map_assign: "fst ` set (map_assign k v m) = insert k (fst ` set m)"
proof -
  have "dom (map_of (map_assign k v m)) = insert k (dom (map_of m))"
    by (simp add: map_of_map_assign)
  then show ?thesis by (simp only: dom_map_of_conv_image_fst)
qed

lemma sorted_map_assign:
  "sorted_wrt (<) (map fst m) \<Longrightarrow> sorted_wrt (<) (map fst (map_assign k v m))"
proof (induction m)
  case Nil
  then show ?case by simp
next
  case (Cons e m)
  obtain k' v' where e: "e = (k', v')" by (cases e)
  from Cons.prems e have tl: "sorted_wrt (<) (map fst m)" and hd: "\<forall>x\<in>fst ` set m. k' < x"
    by auto
  show ?case
  proof (cases "k < k'")
    case True
    with Cons.prems e hd show ?thesis by (auto intro: less_trans)
  next
    case False
    show ?thesis
    proof (cases "k = k'")
      case True
      with Cons.prems e show ?thesis by simp
    next
      case neq: False
      with False have "k' < k" by simp
      with hd have "\<forall>x\<in>fst ` set (map_assign k v m). k' < x"
        by (simp add: keys_map_assign)
      with False neq e Cons.IH [OF tl] show ?thesis by auto
    qed
  qed
qed

lemma map_of_map_erase:
  "sorted_wrt (<) (map fst m) \<Longrightarrow> map_of (map_erase k m) = (map_of m)(k := None)"
proof (induction m)
  case Nil
  then show ?case by simp
next
  case (Cons e m)
  obtain k' v' where e: "e = (k', v')" by (cases e)
  from Cons.prems e have tl: "sorted_wrt (<) (map fst m)" and hd: "\<forall>x\<in>fst ` set m. k' < x"
    by auto
  show ?case
  proof (cases "k = k'")
    case True
    from hd have "k' \<notin> fst ` set m" by auto
    then have "map_of m k' = None" by (simp add: map_of_eq_None_iff)
    with True e show ?thesis by (auto simp: fun_eq_iff)
  next
    case False
    with e Cons.IH [OF tl] show ?thesis by (auto simp: fun_eq_iff)
  qed
qed

lemma set_map_erase_subset: "set (map_erase k m) \<subseteq> set m"
  by (induction m) (auto split: if_splits)

lemma keys_map_erase_subset: "fst ` set (map_erase k m) \<subseteq> fst ` set m"
  using set_map_erase_subset [of k m] by blast

lemma sorted_map_erase:
  "sorted_wrt (<) (map fst m) \<Longrightarrow> sorted_wrt (<) (map fst (map_erase k m))"
proof (induction m)
  case Nil
  then show ?case by simp
next
  case (Cons e m)
  obtain k' v' where e: "e = (k', v')" by (cases e)
  from Cons.prems e have tl: "sorted_wrt (<) (map fst m)" and hd: "\<forall>x\<in>fst ` set m. k' < x"
    by auto
  from hd keys_map_erase_subset [of k m] have "\<forall>x\<in>fst ` set (map_erase k m). k' < x"
    by blast
  with e tl Cons.IH [OF tl] show ?case by auto
qed

lemma map_of_hd:
  "m \<noteq> [] \<Longrightarrow> map_of m (fst (hd m)) = Some (snd (hd m))"
  by (cases m) auto

lemma hd_least:
  fixes m :: PriceLevelMap
  shows "sorted_wrt (<) (map fst m) \<Longrightarrow> map_of m k = Some v \<Longrightarrow> fst (hd m) \<le> k"
  by (cases m) (auto dest!: map_of_SomeD split: if_splits simp: less_imp_le)

lemma map_of_last:
  fixes m :: PriceLevelMap
  shows "sorted_wrt (<) (map fst m) \<Longrightarrow> m \<noteq> [] \<Longrightarrow> map_of m (fst (last m)) = Some (snd (last m))"
proof -
  assume s: "sorted_wrt (<) (map fst m)" and ne: "m \<noteq> []"
  from s have "distinct (map fst m)"
    by (simp add: strict_sorted_iff)
  moreover from ne have "(fst (last m), snd (last m)) \<in> set m" by simp
  ultimately show ?thesis by (simp del: prod.collapse)
qed

lemma last_greatest:
  fixes m :: PriceLevelMap
  shows "sorted_wrt (<) (map fst m) \<Longrightarrow> map_of m k = Some v \<Longrightarrow> k \<le> fst (last m)"
proof (induction m)
  case Nil
  then show ?case by simp
next
  case (Cons e m)
  show ?case
  proof (cases "m = []")
    case True
    with Cons.prems show ?thesis by (auto split: if_splits)
  next
    case False
    from Cons.prems have tl: "sorted_wrt (<) (map fst m)" by simp
    from False have lastin: "fst (last m) \<in> fst ` set m" by simp
    show ?thesis
    proof (cases "k = fst e")
      case True
      with Cons.prems lastin False show ?thesis by (auto simp: less_imp_le)
    next
      case neq: False
      with Cons.prems have "map_of m k = Some v" by (cases e) (auto split: if_splits)
      from Cons.IH [OF tl this] False show ?thesis by simp
    qed
  qed
qed

lemma map_of_empty_iff: "(m = []) = (\<forall>k. map_of m k = None)"
  by (cases m) (auto simp: fun_eq_iff)

subsection \<open>The book seen as two finite maps from prices to levels\<close>

lemma not_BUY [simp]: "(sd \<noteq> BUY) = (sd = SELL)"
  by (cases sd) auto

lemma not_SELL [simp]: "(sd \<noteq> SELL) = (sd = BUY)"
  by (cases sd) auto

lemma getPriceLevelMap_set [simp]:
  "getPriceLevelMap sd (setPriceLevelMap sd' m b) = (if sd = sd' then m else getPriceLevelMap sd b)"
  by (cases sd; cases sd') (simp_all add: getPriceLevelMap_def setPriceLevelMap_def)

lemma order_map_set [simp]: "order_map (setPriceLevelMap sd m b) = order_map b"
  by (simp add: setPriceLevelMap_def)

lemma getPriceLevelMap_order_map_update [simp]:
  "getPriceLevelMap sd (b\<lparr>order_map := f\<rparr>) = getPriceLevelMap sd b"
  by (simp add: getPriceLevelMap_def)

lemma lv_order_map_update [simp]: "lv (b\<lparr>order_map := f\<rparr>) = lv b"
  by (simp add: lv_def fun_eq_iff)

lemma maps_sorted_order_map_update [simp]: "maps_sorted (b\<lparr>order_map := f\<rparr>) = maps_sorted b"
  by (simp add: maps_sorted_def)

lemma lv_set_assign:
  "lv (setPriceLevelMap sd (map_assign p l (getPriceLevelMap sd b)) b) sd' p' =
     (if sd' = sd \<and> p' = p then Some l else lv b sd' p')"
  by (simp add: lv_def map_of_map_assign)

lemma maps_sorted_set_assign:
  "maps_sorted b \<Longrightarrow> maps_sorted (setPriceLevelMap sd (map_assign p l (getPriceLevelMap sd b)) b)"
  by (simp add: maps_sorted_def sorted_map_assign)

lemma lv_set_erase:
  "maps_sorted b \<Longrightarrow>
   lv (setPriceLevelMap sd (map_erase p (getPriceLevelMap sd b)) b) sd' p' =
     (if sd' = sd \<and> p' = p then None else lv b sd' p')"
  by (simp add: lv_def maps_sorted_def map_of_map_erase)

lemma maps_sorted_set_erase:
  "maps_sorted b \<Longrightarrow> maps_sorted (setPriceLevelMap sd (map_erase p (getPriceLevelMap sd b)) b)"
  by (simp add: maps_sorted_def sorted_map_erase)

text \<open>What the operations of the book do to the two maps and to the index.\<close>

lemma addOrder_spec:
  assumes "b' = snd (OrderBook_addOrder h (Some a) b)"
  shows "order_map b' = (order_map b)(getId (h a) \<mapsto> a)"
    and "lv b' sd p =
          (if sd = getSide (h a) \<and> p = getPrice (h a)
           then Some (PriceLevel_addOrder h a
                  (case lv b (getSide (h a)) (getPrice (h a)) of
                     Some l \<Rightarrow> l | None \<Rightarrow> PriceLevel_new (getPrice (h a))))
           else lv b sd p)"
    and "maps_sorted b \<Longrightarrow> maps_sorted b'"
proof -
  let ?b1 = "b\<lparr>order_map := (order_map b)(getId (h a) \<mapsto> a)\<rparr>"
  let ?l = "case map_of (getPriceLevelMap (getSide (h a)) ?b1) (getPrice (h a)) of
              Some l \<Rightarrow> PriceLevel_addOrder h a l
            | None \<Rightarrow> PriceLevel_addOrder h a (PriceLevel_new (getPrice (h a)))"
  have b': "b' = setPriceLevelMap (getSide (h a))
                  (map_assign (getPrice (h a)) ?l (getPriceLevelMap (getSide (h a)) ?b1)) ?b1"
    using assms by (simp add: OrderBook_addOrder_def Let_def)
  show "order_map b' = (order_map b)(getId (h a) \<mapsto> a)"
    by (simp add: b')
  show "lv b' sd p =
          (if sd = getSide (h a) \<and> p = getPrice (h a)
           then Some (PriceLevel_addOrder h a
                  (case lv b (getSide (h a)) (getPrice (h a)) of
                     Some l \<Rightarrow> l | None \<Rightarrow> PriceLevel_new (getPrice (h a))))
           else lv b sd p)"
    unfolding b' lv_set_assign by (simp add: lv_def split: option.splits)
  show "maps_sorted b'" if "maps_sorted b"
    unfolding b' using that maps_sorted_set_assign [of ?b1] by simp
qed

lemma updateOrderQuantity_None:
  "order_map b oid = None \<Longrightarrow> updateOrderQuantity h oid old_qty new_qty b = b"
  by (simp add: updateOrderQuantity_def)

lemma updateOrderQuantity_spec:
  assumes "order_map b oid = Some a" and "b' = updateOrderQuantity h oid old_qty new_qty b"
  shows "order_map b' = order_map b"
    and "lv b' sd p =
          (if sd = getSide (h a) \<and> p = getPrice (h a)
           then map_option (PriceLevel_updateQuantity oid old_qty new_qty) (lv b sd p)
           else lv b sd p)"
    and "maps_sorted b \<Longrightarrow> maps_sorted b'"
proof -
  show "order_map b' = order_map b"
    using assms by (simp add: updateOrderQuantity_def Let_def split: option.splits)
  show "lv b' sd p =
          (if sd = getSide (h a) \<and> p = getPrice (h a)
           then map_option (PriceLevel_updateQuantity oid old_qty new_qty) (lv b sd p)
           else lv b sd p)"
  proof (cases "lv b (getSide (h a)) (getPrice (h a))")
    case None
    then show ?thesis using assms
      by (auto simp: updateOrderQuantity_def Let_def lv_def)
  next
    case (Some l)
    then have "b' = setPriceLevelMap (getSide (h a))
                   (map_assign (getPrice (h a)) (PriceLevel_updateQuantity oid old_qty new_qty l)
                      (getPriceLevelMap (getSide (h a)) b)) b"
      using assms by (simp add: updateOrderQuantity_def Let_def lv_def)
    then show ?thesis using Some by (simp add: lv_set_assign)
  qed
  show "maps_sorted b'" if "maps_sorted b"
    using assms that
    by (auto simp: updateOrderQuantity_def Let_def maps_sorted_set_assign split: option.splits)
qed

lemma removeEmptyPriceLevel_spec:
  assumes "maps_sorted b"
  shows "order_map (removeEmptyPriceLevel sd p b) = order_map b"
    and "lv (removeEmptyPriceLevel sd p b) sd' p' =
          (if sd' = sd \<and> p' = p \<and> (\<exists>l. lv b sd p = Some l \<and> PriceLevel_isEmpty l) then None
           else lv b sd' p')"
    and "maps_sorted (removeEmptyPriceLevel sd p b)"
proof -
  show "order_map (removeEmptyPriceLevel sd p b) = order_map b"
    by (simp add: removeEmptyPriceLevel_def Let_def split: option.splits)
  show "lv (removeEmptyPriceLevel sd p b) sd' p' =
          (if sd' = sd \<and> p' = p \<and> (\<exists>l. lv b sd p = Some l \<and> PriceLevel_isEmpty l) then None
           else lv b sd' p')"
  proof (cases "lv b sd p")
    case None
    then show ?thesis by (auto simp: removeEmptyPriceLevel_def Let_def lv_def)
  next
    case (Some l)
    show ?thesis
    proof (cases "PriceLevel_isEmpty l")
      case True
      with Some have "removeEmptyPriceLevel sd p b =
                        setPriceLevelMap sd (map_erase p (getPriceLevelMap sd b)) b"
        by (simp add: removeEmptyPriceLevel_def Let_def lv_def)
      with Some True assms show ?thesis by (simp add: lv_set_erase)
    next
      case False
      with Some have "removeEmptyPriceLevel sd p b = b"
        by (simp add: removeEmptyPriceLevel_def Let_def lv_def)
      with Some False show ?thesis by simp
    qed
  qed
  show "maps_sorted (removeEmptyPriceLevel sd p b)"
    using assms
    by (auto simp: removeEmptyPriceLevel_def Let_def maps_sorted_set_erase split: option.splits)
qed

lemma cancelOrder_None:
  "order_map b oid = None \<Longrightarrow> OrderBook_cancelOrder h oid b = (False, b)"
  by (simp add: OrderBook_cancelOrder_def)

lemma cancelOrder_spec:
  assumes "order_map b oid = Some a" and "maps_sorted b"
    and "b' = snd (OrderBook_cancelOrder h oid b)"
  shows "fst (OrderBook_cancelOrder h oid b)"
    and "order_map b' = (order_map b)(oid := None)"
    and "lv b' sd p =
          (if sd = getSide (h a) \<and> p = getPrice (h a)
           then (case lv b sd p of
                   None \<Rightarrow> None
                 | Some l \<Rightarrow>
                     (case PriceLevel_removeOrder h oid l of
                        (removed, l') \<Rightarrow>
                          if removed \<and> PriceLevel_isEmpty l' then None else Some l'))
           else lv b sd p)"
    and "maps_sorted b'"
proof -
  let ?sd = "getSide (h a)" and ?p = "getPrice (h a)"
  show "fst (OrderBook_cancelOrder h oid b)"
    using assms(1) by (simp add: OrderBook_cancelOrder_def Let_def)
  define b1 where "b1 =
     (case map_of (getPriceLevelMap ?sd b) ?p of
        None \<Rightarrow> b
      | Some lvl \<Rightarrow>
          let (removed, lvl') = PriceLevel_removeOrder h oid lvl;
              b' = setPriceLevelMap ?sd (map_assign ?p lvl' (getPriceLevelMap ?sd b)) b
          in if removed \<and> PriceLevel_isEmpty lvl'
             then removeEmptyPriceLevel ?sd ?p b' else b')"
  have b': "b' = b1\<lparr>order_map := (order_map b1)(oid := None)\<rparr>"
    using assms(1,3) by (simp add: OrderBook_cancelOrder_def Let_def b1_def)
  have b1: "order_map b1 = order_map b \<and> maps_sorted b1 \<and>
        lv b1 sd p =
          (if sd = ?sd \<and> p = ?p
           then (case lv b sd p of
                   None \<Rightarrow> None
                 | Some l \<Rightarrow>
                     (case PriceLevel_removeOrder h oid l of
                        (removed, l') \<Rightarrow>
                          if removed \<and> PriceLevel_isEmpty l' then None else Some l'))
           else lv b sd p)"
  proof (cases "lv b ?sd ?p")
    case None
    then have "b1 = b" by (simp add: b1_def lv_def)
    with None assms(2) show ?thesis by auto
  next
    case (Some l)
    obtain removed l' where rm: "PriceLevel_removeOrder h oid l = (removed, l')"
      by (cases "PriceLevel_removeOrder h oid l")
    let ?b2 = "setPriceLevelMap ?sd (map_assign ?p l' (getPriceLevelMap ?sd b)) b"
    have s2: "maps_sorted ?b2" using assms(2) by (rule maps_sorted_set_assign)
    have lv2: "lv ?b2 sd' p' = (if sd' = ?sd \<and> p' = ?p then Some l' else lv b sd' p')" for sd' p'
      by (rule lv_set_assign)
    show ?thesis
    proof (cases "removed \<and> PriceLevel_isEmpty l'")
      case True
      with Some rm have "b1 = removeEmptyPriceLevel ?sd ?p ?b2"
        by (simp add: b1_def lv_def)
      with True Some rm removeEmptyPriceLevel_spec [OF s2, of ?sd ?p] lv2 show ?thesis
        by auto
    next
      case False
      with Some rm have "b1 = ?b2" by (auto simp: b1_def lv_def)
      with False Some rm s2 lv2 show ?thesis by auto
    qed
  qed
  show "order_map b' = (order_map b)(oid := None)" using b' b1 by simp
  show "maps_sorted b'" using b' b1 by simp
  show "lv b' sd p =
          (if sd = getSide (h a) \<and> p = getPrice (h a)
           then (case lv b sd p of
                   None \<Rightarrow> None
                 | Some l \<Rightarrow>
                     (case PriceLevel_removeOrder h oid l of
                        (removed, l') \<Rightarrow>
                          if removed \<and> PriceLevel_isEmpty l' then None else Some l'))
           else lv b sd p)"
    using b' b1 by simp
qed

subsection \<open>Invariants of the book\<close>

lemma levels_okD:
  assumes "levels_ok h b" and "lv b sd p = Some l"
  shows "orders l \<noteq> []" and "distinct (orders l)"
    and "a \<in> set (orders l) \<Longrightarrow> getSide (h a) = sd"
    and "a \<in> set (orders l) \<Longrightarrow> getPrice (h a) = p"
    and "a \<in> set (orders l) \<Longrightarrow> order_map b (getId (h a)) = Some a"
  using assms unfolding levels_ok_def by blast+

lemma index_okD:
  assumes "index_ok h b" and "order_map b i = Some a"
  shows "getId (h a) = i"
    and "\<exists>l. lv b (getSide (h a)) (getPrice (h a)) = Some l \<and> a \<in> set (orders l)"
  using assms unfolding index_ok_def by blast+

lemma totals_okD:
  "totals_ok h b \<Longrightarrow> lv b sd p = Some l \<Longrightarrow>
   total_quantity l = sum_list (map (\<lambda>a. getRemainingQuantity (h a)) (orders l))"
  unfolding totals_ok_def by blast

text \<open>An address that the index does not hold is in no queue.\<close>

lemma not_indexed_not_queued:
  assumes "levels_ok h b" and "\<forall>i. order_map b i \<noteq> Some a" and "lv b sd p = Some l"
  shows "a \<notin> set (orders l)"
  using levels_okD(5) [OF assms(1,3), of a] assms(2) by auto

lemma fresh_id_not_indexed:
  assumes "index_ok h b" and "order_map b (getId (h a)) = None"
  shows "order_map b i \<noteq> Some a"
  using index_okD(1) [OF assms(1), of i a] assms(2) by auto

subsubsection \<open>The store changes at an address that does not rest\<close>

lemma book_ok_heap_upd_other:
  assumes ok: "book_ok h b" and na: "\<forall>i. order_map b i \<noteq> Some a"
  shows "book_ok (h(a := x)) b"
proof -
  from ok have lev: "levels_ok h b" and idx: "index_ok h b" and tot: "totals_ok h b"
    and srt: "maps_sorted b" by (simp_all add: book_ok_def)
  have nq: "a \<notin> set (orders l)" if "lv b sd p = Some l" for sd p l
    using not_indexed_not_queued [OF lev na that] .
  have "levels_ok (h(a := x)) b"
    unfolding levels_ok_def
  proof (intro allI impI)
    fix sd p l assume l: "lv b sd p = Some l"
    from nq [OF l] levels_okD [OF lev l]
    show "orders l \<noteq> [] \<and> distinct (orders l) \<and>
        (\<forall>c\<in>set (orders l). getSide ((h(a := x)) c) = sd \<and> getPrice ((h(a := x)) c) = p \<and>
           order_map b (getId ((h(a := x)) c)) = Some c)"
      by auto
  qed
  moreover have "index_ok (h(a := x)) b"
    unfolding index_ok_def
  proof (intro allI impI)
    fix i c assume c: "order_map b i = Some c"
    with na have "c \<noteq> a" by auto
    with index_okD [OF idx c]
    show "getId ((h(a := x)) c) = i \<and>
        (\<exists>l. lv b (getSide ((h(a := x)) c)) (getPrice ((h(a := x)) c)) = Some l \<and> c \<in> set (orders l))"
      by simp
  qed
  moreover have "totals_ok (h(a := x)) b"
    unfolding totals_ok_def
  proof (intro allI impI)
    fix sd p l assume l: "lv b sd p = Some l"
    from nq [OF l] have "map (\<lambda>c. getRemainingQuantity ((h(a := x)) c)) (orders l) =
                         map (\<lambda>c. getRemainingQuantity (h c)) (orders l)"
      by (intro map_cong) auto
    then show "total_quantity l = sum_list (map (\<lambda>c. getRemainingQuantity ((h(a := x)) c)) (orders l))"
      using totals_okD [OF tot l] by (simp only:)
  qed
  ultimately show ?thesis using srt by (simp add: book_ok_def)
qed

lemma unfilled_heap_upd_other:
  "unfilled h b \<Longrightarrow> \<forall>i. order_map b i \<noteq> Some a \<Longrightarrow> unfilled (h(a := x)) b"
  unfolding unfilled_def by auto

subsubsection \<open>addOrder\<close>

lemma sum_list_PriceLevel_addOrder:
  "orders (PriceLevel_addOrder h a l) = orders l @ [a]"
  "total_quantity (PriceLevel_addOrder h a l) = total_quantity l + getRemainingQuantity (h a)"
  by (simp_all add: PriceLevel_addOrder_def)

lemma book_ok_addOrder:
  assumes ok: "book_ok h b" and fresh: "order_map b (getId (h a)) = None"
    and b': "b' = snd (OrderBook_addOrder h (Some a) b)"
  shows "book_ok h b'"
proof -
  from ok have lev: "levels_ok h b" and idx: "index_ok h b" and tot: "totals_ok h b"
    and srt: "maps_sorted b" by (simp_all add: book_ok_def)
  let ?sd = "getSide (h a)" and ?p = "getPrice (h a)"
  define l0 where "l0 = (case lv b ?sd ?p of Some l \<Rightarrow> l | None \<Rightarrow> PriceLevel_new ?p)"
  define l1 where "l1 = PriceLevel_addOrder h a l0"
  have om: "order_map b' = (order_map b)(getId (h a) \<mapsto> a)"
    using addOrder_spec(1) [OF b'] .
  have lvb': "lv b' sd p = (if sd = ?sd \<and> p = ?p then Some l1 else lv b sd p)" for sd p
    using addOrder_spec(2) [OF b', of sd p] by (simp add: l0_def l1_def)
  have na: "order_map b i \<noteq> Some a" for i
    using fresh_id_not_indexed [OF idx fresh] .
  have keep: "order_map b' (getId (h c)) = Some c" if "order_map b (getId (h c)) = Some c" for c
    using that fresh by (auto simp: om)
  have l0a: "a \<notin> set (orders l0)" and l0d: "distinct (orders l0)"
    and l0m: "\<And>c. c \<in> set (orders l0) \<Longrightarrow>
               getSide (h c) = ?sd \<and> getPrice (h c) = ?p \<and> order_map b (getId (h c)) = Some c"
    and l0t: "total_quantity l0 = sum_list (map (\<lambda>c. getRemainingQuantity (h c)) (orders l0))"
  proof -
    show "a \<notin> set (orders l0)"
    proof (cases "lv b ?sd ?p")
      case None
      then show ?thesis by (simp add: l0_def PriceLevel_new_def)
    next
      case (Some l)
      with not_indexed_not_queued [OF lev _ Some, of a] na show ?thesis by (simp add: l0_def)
    qed
    show "distinct (orders l0)"
    proof (cases "lv b ?sd ?p")
      case None
      then show ?thesis by (simp add: l0_def PriceLevel_new_def)
    next
      case (Some l)
      with levels_okD(2) [OF lev Some] show ?thesis by (simp add: l0_def)
    qed
    show "getSide (h c) = ?sd \<and> getPrice (h c) = ?p \<and> order_map b (getId (h c)) = Some c"
      if "c \<in> set (orders l0)" for c
    proof (cases "lv b ?sd ?p")
      case None
      with that show ?thesis by (simp add: l0_def PriceLevel_new_def)
    next
      case (Some l)
      with that have "c \<in> set (orders l)" by (simp add: l0_def)
      with levels_okD(3,4,5) [OF lev Some, of c] show ?thesis by simp
    qed
    show "total_quantity l0 = sum_list (map (\<lambda>c. getRemainingQuantity (h c)) (orders l0))"
    proof (cases "lv b ?sd ?p")
      case None
      then show ?thesis by (simp add: l0_def PriceLevel_new_def)
    next
      case (Some l)
      with totals_okD [OF tot Some] show ?thesis by (simp add: l0_def)
    qed
  qed
  have l1o: "orders l1 = orders l0 @ [a]"
    and l1t: "total_quantity l1 = total_quantity l0 + getRemainingQuantity (h a)"
    by (simp_all add: l1_def sum_list_PriceLevel_addOrder)
  have "levels_ok h b'"
    unfolding levels_ok_def
  proof (intro allI impI)
    fix sd p l assume l: "lv b' sd p = Some l"
    show "orders l \<noteq> [] \<and> distinct (orders l) \<and>
        (\<forall>c\<in>set (orders l). getSide (h c) = sd \<and> getPrice (h c) = p \<and>
           order_map b' (getId (h c)) = Some c)"
    proof (cases "sd = ?sd \<and> p = ?p")
      case True
      with l lvb' [of sd p] have leq: "l = l1" by simp
      have "order_map b' (getId (h c)) = Some c" if "c \<in> set (orders l0)" for c
        using keep l0m [OF that] by simp
      moreover have "order_map b' (getId (h a)) = Some a" by (simp add: om)
      ultimately show ?thesis using l0a l0d l0m True
        by (simp add: leq l1o ball_Un)
    next
      case False
      with l lvb' [of sd p] have old: "lv b sd p = Some l" by (simp split: if_splits)
      have "order_map b' (getId (h c)) = Some c" if "c \<in> set (orders l)" for c
        using keep levels_okD(5) [OF lev old that] by simp
      with levels_okD(1,2) [OF lev old] levels_okD(3,4) [OF lev old] show ?thesis
        by simp
    qed
  qed
  moreover have "index_ok h b'"
    unfolding index_ok_def
  proof (intro allI impI)
    fix i c assume c: "order_map b' i = Some c"
    show "getId (h c) = i \<and>
        (\<exists>l. lv b' (getSide (h c)) (getPrice (h c)) = Some l \<and> c \<in> set (orders l))"
    proof (cases "i = getId (h a)")
      case True
      with c om have "c = a" by simp
      with True show ?thesis
        by (simp add: lvb' l1o)
    next
      case False
      with c om have old: "order_map b i = Some c" by simp
      from index_okD [OF idx old] obtain l where
        i: "getId (h c) = i" and l: "lv b (getSide (h c)) (getPrice (h c)) = Some l"
        and cl: "c \<in> set (orders l)" by blast
      show ?thesis
      proof (cases "getSide (h c) = ?sd \<and> getPrice (h c) = ?p")
        case True
        with l have "l0 = l" by (simp add: l0_def)
        with True cl i show ?thesis
          by (simp add: lvb' l1o)
      next
        case False
        with l cl i show ?thesis by (auto simp: lvb')
      qed
    qed
  qed
  moreover have "totals_ok h b'"
    unfolding totals_ok_def
  proof (intro allI impI)
    fix sd p l assume l: "lv b' sd p = Some l"
    show "total_quantity l = sum_list (map (\<lambda>c. getRemainingQuantity (h c)) (orders l))"
    proof (cases "sd = ?sd \<and> p = ?p")
      case True
      with l lvb' [of sd p] have "l = l1" by simp
      with l0t show ?thesis by (simp add: l1o l1t)
    next
      case False
      with l lvb' [of sd p] have "lv b sd p = Some l" by (simp split: if_splits)
      from totals_okD [OF tot this] show ?thesis .
    qed
  qed
  ultimately show ?thesis using addOrder_spec(3) [OF b' srt] by (simp add: book_ok_def)
qed

subsubsection \<open>cancelOrder\<close>

lemma remove_scan_unique:
  "a \<in> set xs \<Longrightarrow> (\<forall>c\<in>set xs. getId (h c) = getId (h a) \<longrightarrow> c = a) \<Longrightarrow>
   remove_scan h (getId (h a)) xs = Some (a, remove1 a xs)"
  by (induction xs) auto

lemma book_ok_cancelOrder:
  assumes ok: "book_ok h b" and ia: "order_map b i = Some a"
    and b': "b' = snd (OrderBook_cancelOrder h i b)"
  shows "book_ok h b'"
    and "order_map b' = (order_map b)(i := None)"
    and "\<And>sd p l'. lv b' sd p = Some l' \<Longrightarrow> \<exists>l. lv b sd p = Some l"
proof -
  from ok have lev: "levels_ok h b" and idx: "index_ok h b" and tot: "totals_ok h b"
    and srt: "maps_sorted b" by (simp_all add: book_ok_def)
  let ?sd = "getSide (h a)" and ?p = "getPrice (h a)"
  from index_okD [OF idx ia] obtain l where
    id: "getId (h a) = i" and l: "lv b ?sd ?p = Some l" and al: "a \<in> set (orders l)"
    by blast
  note lD = levels_okD [OF lev l]
  have uniq: "c = a" if "order_map b (getId (h c)) = Some c" "getId (h c) = i" for c
    using that ia by simp
  have "\<forall>c\<in>set (orders l). getId (h c) = getId (h a) \<longrightarrow> c = a"
    using lD(5) uniq id by blast
  from remove_scan_unique [OF al this]
  have scan: "remove_scan h i (orders l) = Some (a, remove1 a (orders l))"
    by (simp add: id)
  define l' where "l' = l\<lparr>total_quantity := total_quantity l - getRemainingQuantity (h a),
                            orders := remove1 a (orders l)\<rparr>"
  have rm: "PriceLevel_removeOrder h i l = (True, l')"
    by (simp add: PriceLevel_removeOrder_def scan l'_def)
  have l'o: "orders l' = remove1 a (orders l)"
    and l't: "total_quantity l' = total_quantity l - getRemainingQuantity (h a)"
    by (simp_all add: l'_def)
  note spec = cancelOrder_spec [OF ia srt b']
  show om: "order_map b' = (order_map b)(i := None)" by (rule spec(2))
  have lvb': "lv b' sd p =
       (if sd = ?sd \<and> p = ?p then (if orders l' = [] then None else Some l') else lv b sd p)"
    for sd p
    using spec(3) [of sd p] l rm by (simp add: PriceLevel_isEmpty_def)
  show "\<exists>l. lv b sd p = Some l" if "lv b' sd p = Some k" for sd p k
    using that l lvb' [of sd p] by (auto split: if_splits)
  have l'set: "set (orders l') = set (orders l) - {a}"
    using lD(2) by (simp add: l'o)
  have keep: "order_map b' (getId (h c)) = Some c"
    if "order_map b (getId (h c)) = Some c" "c \<noteq> a" for c
    using that uniq [of c] by (auto simp: om)
  have "levels_ok h b'"
    unfolding levels_ok_def
  proof (intro allI impI)
    fix sd p k assume k: "lv b' sd p = Some k"
    show "orders k \<noteq> [] \<and> distinct (orders k) \<and>
        (\<forall>c\<in>set (orders k). getSide (h c) = sd \<and> getPrice (h c) = p \<and>
           order_map b' (getId (h c)) = Some c)"
    proof (cases "sd = ?sd \<and> p = ?p")
      case True
      with k lvb' [of sd p] have keq: "k = l'" and ne: "orders l' \<noteq> []"
        by (auto split: if_splits)
      have "order_map b' (getId (h c)) = Some c" if "c \<in> set (orders l')" for c
        using that l'set keep [of c] lD(5) [of c] by simp
      moreover have "getSide (h c) = sd \<and> getPrice (h c) = p" if "c \<in> set (orders l')" for c
        using that l'set lD(3,4) [of c] True by simp
      moreover have "distinct (orders l')" using lD(2) by (simp add: l'o)
      ultimately show ?thesis using ne by (simp add: keq)
    next
      case False
      with k lvb' [of sd p] have old: "lv b sd p = Some k" by (simp split: if_splits)
      note kD = levels_okD [OF lev old]
      have "c \<noteq> a" if "c \<in> set (orders k)" for c
        using kD(3,4) [OF that] False by auto
      then have "order_map b' (getId (h c)) = Some c" if "c \<in> set (orders k)" for c
        using that keep [of c] kD(5) [of c] by simp
      with kD(1,2) kD(3,4) show ?thesis by simp
    qed
  qed
  moreover have "index_ok h b'"
    unfolding index_ok_def
  proof (intro allI impI)
    fix j c assume c: "order_map b' j = Some c"
    then have ji: "j \<noteq> i" and old: "order_map b j = Some c"
      by (auto simp: om split: if_splits)
    from index_okD [OF idx old] obtain k where
      j: "getId (h c) = j" and k: "lv b (getSide (h c)) (getPrice (h c)) = Some k"
      and ck: "c \<in> set (orders k)" by blast
    from j ji id have ca: "c \<noteq> a" by auto
    show "getId (h c) = j \<and>
        (\<exists>l. lv b' (getSide (h c)) (getPrice (h c)) = Some l \<and> c \<in> set (orders l))"
    proof (cases "getSide (h c) = ?sd \<and> getPrice (h c) = ?p")
      case True
      with k l have "k = l" by simp
      with ck ca l'set have cl': "c \<in> set (orders l')" by simp
      then have "orders l' \<noteq> []" by auto
      with True cl' j show ?thesis by (simp add: lvb')
    next
      case False
      with k ck j show ?thesis by (auto simp: lvb')
    qed
  qed
  moreover have "totals_ok h b'"
    unfolding totals_ok_def
  proof (intro allI impI)
    fix sd p k assume k: "lv b' sd p = Some k"
    show "total_quantity k = sum_list (map (\<lambda>c. getRemainingQuantity (h c)) (orders k))"
    proof (cases "sd = ?sd \<and> p = ?p")
      case True
      with k lvb' [of sd p] have keq: "k = l'" by (auto split: if_splits)
      from sum_list_map_remove1 [OF al, of "\<lambda>c. getRemainingQuantity (h c)"]
      have "sum_list (map (\<lambda>c. getRemainingQuantity (h c)) (remove1 a (orders l))) =
            sum_list (map (\<lambda>c. getRemainingQuantity (h c)) (orders l)) - getRemainingQuantity (h a)"
        by simp
      with totals_okD [OF tot l] show ?thesis by (simp add: keq l'o l't)
    next
      case False
      with k lvb' [of sd p] have "lv b sd p = Some k" by (simp split: if_splits)
      from totals_okD [OF tot this] show ?thesis .
    qed
  qed
  ultimately show "book_ok h b'" using spec(4) by (simp add: book_ok_def)
qed

subsubsection \<open>A fill of a resting order\<close>

lemma book_ok_fill:
  assumes ok: "book_ok h b" and ix: "order_map b i = Some x"
    and same: "getId x' = getId (h x)" "getSide x' = getSide (h x)" "getPrice x' = getPrice (h x)"
    and rem: "getRemainingQuantity x' = getRemainingQuantity (h x) - q"
    and b': "b' = updateOrderQuantity (h(x := x')) i (getRemainingQuantity x' + q)
                    (getRemainingQuantity x') b"
  shows "book_ok (h(x := x')) b'"
    and "order_map b' = order_map b"
    and "\<And>sd p. map_option orders (lv b' sd p) = map_option orders (lv b sd p)"
proof -
  from ok have lev: "levels_ok h b" and idx: "index_ok h b" and tot: "totals_ok h b"
    and srt: "maps_sorted b" by (simp_all add: book_ok_def)
  let ?h = "h(x := x')"
  let ?sd = "getSide (h x)" and ?p = "getPrice (h x)"
  from index_okD [OF idx ix] obtain l where
    id: "getId (h x) = i" and l: "lv b ?sd ?p = Some l" and xl: "x \<in> set (orders l)"
    by blast
  note lD = levels_okD [OF lev l]
  have hid: "getId (?h c) = getId (h c)" "getSide (?h c) = getSide (h c)"
    "getPrice (?h c) = getPrice (h c)" for c
    using same by simp_all
  define l' where "l' = PriceLevel_updateQuantity i (getRemainingQuantity x' + q)
                          (getRemainingQuantity x') l"
  have l'o: "orders l' = orders l"
    and l't: "total_quantity l' = total_quantity l - q"
    by (simp_all add: l'_def PriceLevel_updateQuantity_def)
  note spec = updateOrderQuantity_spec [OF ix b']
  show om: "order_map b' = order_map b" by (rule spec(1))
  have lvb': "lv b' sd p = (if sd = ?sd \<and> p = ?p then Some l' else lv b sd p)" for sd p
    using spec(2) [of sd p] l same by (simp add: l'_def)
  show "map_option orders (lv b' sd p) = map_option orders (lv b sd p)" for sd p
    using l by (simp add: lvb' l'o)
  have "levels_ok ?h b'"
    unfolding levels_ok_def
  proof (intro allI impI)
    fix sd p k assume k: "lv b' sd p = Some k"
    obtain k0 where k0: "lv b sd p = Some k0" and ko: "orders k = orders k0"
      using k l lvb' [of sd p] l'o by (cases "sd = ?sd \<and> p = ?p") auto
    from levels_okD [OF lev k0]
    show "orders k \<noteq> [] \<and> distinct (orders k) \<and>
        (\<forall>c\<in>set (orders k). getSide (?h c) = sd \<and> getPrice (?h c) = p \<and>
           order_map b' (getId (?h c)) = Some c)"
      by (simp add: ko om hid del: fun_upd_apply)
  qed
  moreover have "index_ok ?h b'"
    unfolding index_ok_def
  proof (intro allI impI)
    fix j c assume c: "order_map b' j = Some c"
    then have old: "order_map b j = Some c" by (simp add: om)
    from index_okD [OF idx old] obtain k where
      j: "getId (h c) = j" and k: "lv b (getSide (h c)) (getPrice (h c)) = Some k"
      and ck: "c \<in> set (orders k)" by blast
    show "getId (?h c) = j \<and>
        (\<exists>l. lv b' (getSide (?h c)) (getPrice (?h c)) = Some l \<and> c \<in> set (orders l))"
    proof (cases "getSide (h c) = ?sd \<and> getPrice (h c) = ?p")
      case True
      with k l have "k = l" by simp
      with True ck j show ?thesis by (simp add: hid lvb' l'o del: fun_upd_apply)
    next
      case False
      with k ck j show ?thesis by (auto simp: hid lvb' simp del: fun_upd_apply)
    qed
  qed
  moreover have "totals_ok ?h b'"
    unfolding totals_ok_def
  proof (intro allI impI)
    fix sd p k assume k: "lv b' sd p = Some k"
    show "total_quantity k = sum_list (map (\<lambda>c. getRemainingQuantity (?h c)) (orders k))"
    proof (cases "sd = ?sd \<and> p = ?p")
      case True
      with k lvb' [of sd p] have keq: "k = l'" by simp
      have "x \<notin> set (remove1 x (orders l))" using lD(2) by simp
      then have same_rest: "map (\<lambda>c. getRemainingQuantity (?h c)) (remove1 x (orders l)) =
                  map (\<lambda>c. getRemainingQuantity (h c)) (remove1 x (orders l))"
        by (intro map_cong) auto
      have "sum_list (map (\<lambda>c. getRemainingQuantity (?h c)) (orders l)) =
            getRemainingQuantity x' +
            sum_list (map (\<lambda>c. getRemainingQuantity (h c)) (remove1 x (orders l)))"
        using sum_list_map_remove1 [OF xl, of "\<lambda>c. getRemainingQuantity (?h c)"]
        by (simp only: same_rest) simp
      moreover have "sum_list (map (\<lambda>c. getRemainingQuantity (h c)) (orders l)) =
            getRemainingQuantity (h x) +
            sum_list (map (\<lambda>c. getRemainingQuantity (h c)) (remove1 x (orders l)))"
        using sum_list_map_remove1 [OF xl, of "\<lambda>c. getRemainingQuantity (h c)"] .
      ultimately show ?thesis using totals_okD [OF tot l] rem
        by (simp add: keq l'o l't)
    next
      case False
      with k lvb' [of sd p] have old: "lv b sd p = Some k" by (simp split: if_splits)
      have "x \<notin> set (orders k)"
        using levels_okD(3,4) [OF lev old, of x] False by auto
      then have "map (\<lambda>c. getRemainingQuantity (?h c)) (orders k) =
                 map (\<lambda>c. getRemainingQuantity (h c)) (orders k)"
        by (intro map_cong) auto
      then show ?thesis using totals_okD [OF tot old] by (simp only:)
    qed
  qed
  ultimately show "book_ok ?h b'" using spec(3) [OF srt] by (simp add: book_ok_def)
qed

subsection \<open>The scan for the best match\<close>

lemma find_best_match_skip:
  "\<not> candidate h a c \<Longrightarrow>
   find_best_match h a (c # cs) (bm, bp) = find_best_match h a cs (bm, bp)"
  by (auto simp: candidate_def compatible_def Let_def)

lemma find_best_match_take:
  "candidate h a c \<Longrightarrow>
   find_best_match h a (c # cs) (bm, bp) =
     find_best_match h a cs
       (case bm of
          None \<Rightarrow> Some c
        | Some b \<Rightarrow> if getTimestamp (h c) < getTimestamp (h b) then Some c else Some b,
        getPrice (h c))"
  by (auto simp: candidate_def compatible_def Let_def split: option.splits)

lemma find_best_match_None:
  "find_best_match h a cs (bm, bp) = (None, rp) \<Longrightarrow>
   bm = None \<and> (\<forall>c\<in>set cs. \<not> candidate h a c)"
proof (induction cs arbitrary: bm bp)
  case Nil
  then show ?case by simp
next
  case (Cons c cs)
  show ?case
  proof (cases "candidate h a c")
    case True
    with Cons.prems have "find_best_match h a cs
       (case bm of None \<Rightarrow> Some c
        | Some b \<Rightarrow> if getTimestamp (h c) < getTimestamp (h b) then Some c else Some b,
        getPrice (h c)) = (None, rp)"
      by (simp add: find_best_match_take del: find_best_match.simps)
    from Cons.IH [OF this] show ?thesis by (simp split: option.splits if_splits)
  next
    case False
    with Cons.prems have "find_best_match h a cs (bm, bp) = (None, rp)"
      by (simp add: find_best_match_skip del: find_best_match.simps)
    from Cons.IH [OF this] False show ?thesis by simp
  qed
qed

lemma find_best_match_Some_min:
  "find_best_match h a cs (bm, bp) = (Some b, rp) \<Longrightarrow>
   (bm = Some b \<or> b \<in> set cs \<and> candidate h a b) \<and>
   (\<forall>c\<in>set cs. candidate h a c \<longrightarrow> getTimestamp (h b) \<le> getTimestamp (h c)) \<and>
   (\<forall>b0. bm = Some b0 \<longrightarrow> getTimestamp (h b) \<le> getTimestamp (h b0))"
proof (induction cs arbitrary: bm bp)
  case Nil
  then show ?case by simp
next
  case (Cons c cs)
  show ?case
  proof (cases "candidate h a c")
    case True
    define bm' where "bm' = (case bm of None \<Rightarrow> Some c
        | Some b \<Rightarrow> if getTimestamp (h c) < getTimestamp (h b) then Some c else Some b)"
    from True Cons.prems have "find_best_match h a cs (bm', getPrice (h c)) = (Some b, rp)"
      by (simp add: find_best_match_take bm'_def del: find_best_match.simps)
    from Cons.IH [OF this] have
      1: "bm' = Some b \<or> b \<in> set cs \<and> candidate h a b" and
      2: "\<forall>c\<in>set cs. candidate h a c \<longrightarrow> getTimestamp (h b) \<le> getTimestamp (h c)" and
      3: "\<forall>b0. bm' = Some b0 \<longrightarrow> getTimestamp (h b) \<le> getTimestamp (h b0)"
      by blast+
    have bm'c: "bm' = Some c \<or> bm' = bm"
      by (auto simp: bm'_def split: option.splits)
    have le_c: "getTimestamp (h b) \<le> getTimestamp (h c)"
      using 3 by (auto simp: bm'_def split: option.splits if_splits)
    have le_bm: "getTimestamp (h b) \<le> getTimestamp (h b0)" if "bm = Some b0" for b0
      using 3 that by (auto simp: bm'_def split: option.splits if_splits)
    from 1 bm'c True have "bm = Some b \<or> b \<in> set (c # cs) \<and> candidate h a b"
      by auto
    with 2 le_c le_bm show ?thesis by simp
  next
    case False
    with Cons.prems have "find_best_match h a cs (bm, bp) = (Some b, rp)"
      by (simp add: find_best_match_skip del: find_best_match.simps)
    from Cons.IH [OF this] False show ?thesis by auto
  qed
qed

lemma find_best_match_price:
  "find_best_match h a cs (bm, bp) = (r, rp) \<Longrightarrow>
   (\<forall>c\<in>set cs. candidate h a c \<longrightarrow> getPrice (h c) = p) \<Longrightarrow>
   rp = p \<or> rp = bp \<and> (\<forall>c\<in>set cs. \<not> candidate h a c)"
proof (induction cs arbitrary: bm bp)
  case Nil
  then show ?case by simp
next
  case (Cons c cs)
  show ?case
  proof (cases "candidate h a c")
    case True
    with Cons.prems(1) obtain bm' where
      "find_best_match h a cs (bm', getPrice (h c)) = (r, rp)"
      by (simp add: find_best_match_take del: find_best_match.simps)
    from Cons.IH [OF this] Cons.prems(2) True show ?thesis by auto
  next
    case False
    with Cons.prems have "find_best_match h a cs (bm, bp) = (r, rp)"
      by (simp add: find_best_match_skip del: find_best_match.simps)
    from Cons.IH [OF this] Cons.prems(2) False show ?thesis by auto
  qed
qed

subsection \<open>The best level\<close>

lemma getOrdersForMatching_best:
  assumes "maps_sorted b" and "getPriceLevelMap sd b \<noteq> []"
  shows "\<exists>k l. lv b sd k = Some l \<and> getOrdersForMatching sd b = orders l \<and>
           (\<forall>p l'. lv b sd p = Some l' \<longrightarrow> (if sd = BUY then p \<le> k else k \<le> p))"
proof -
  let ?m = "getPriceLevelMap sd b"
  from assms(1) have srt: "sorted_wrt (<) (map fst ?m)" by (simp add: maps_sorted_def)
  show ?thesis
  proof (cases sd)
    case BUY
    from map_of_last [OF srt assms(2)] last_greatest [OF srt] BUY assms(2) show ?thesis
      by (auto simp: lv_def getOrdersForMatching_def Let_def)
  next
    case SELL
    from map_of_hd [OF assms(2)] hd_least [OF srt] SELL assms(2) show ?thesis
      by (auto simp: lv_def getOrdersForMatching_def Let_def)
  qed
qed

lemma getOrdersForMatching_empty:
  assumes "maps_sorted b" and "levels_ok h b" and "getOrdersForMatching sd b = []"
  shows "lv b sd p = None"
proof (cases "getPriceLevelMap sd b = []")
  case True
  then show ?thesis by (simp add: lv_def)
next
  case False
  from getOrdersForMatching_best [OF assms(1) False] obtain k l where
    "lv b sd k = Some l" "getOrdersForMatching sd b = orders l" by blast
  with levels_okD(1) [OF assms(2), of sd k l] assms(3) show ?thesis by simp
qed

subsection \<open>One trade\<close>

lemma match_iteration_settle:
  assumes "match_iteration a s = Some s'"
  obtains m bp where
    "opposing a s \<noteq> []"
    "find_best_match (heap s) a (opposing a s) (None, 0) = (Some m, bp)"
    "s' = settle a m bp (min (getRemainingQuantity (heap s a)) (getRemainingQuantity (heap s m))) s"
  using match_iteration_Some [OF assms] unfolding settle_def by blast

lemma iteration_executeTrade_Some:
  assumes "iteration_executeTrade a s = Some s1"
  obtains m bp where
    "opposing a s \<noteq> []"
    "find_best_match (heap s) a (opposing a s) (None, 0) = (Some m, bp)"
    "s1 = executeTrade a m bp (min (getRemainingQuantity (heap s a)) (getRemainingQuantity (heap s m))) s"
    "match_iteration a s =
       Some (settle a m bp (min (getRemainingQuantity (heap s a)) (getRemainingQuantity (heap s m))) s)"
  using assms unfolding iteration_executeTrade_def match_iteration_def opposing_def settle_def Let_def
  by (simp split: if_splits prod.splits option.splits)

lemma match_iteration_None:
  "match_iteration a s = None \<Longrightarrow>
   opposing a s = [] \<or> (\<exists>bp. find_best_match (heap s) a (opposing a s) (None, 0) = (None, bp))"
  unfolding match_iteration_def opposing_def Let_def
  by (simp split: if_splits prod.splits option.splits)

lemma next_free_executeTrade [simp]: "next_free (executeTrade x y p q s) = next_free s"
  by (simp add: executeTrade_def Let_def split: prod.splits)

lemma order_book_executeTrade [simp]: "order_book (executeTrade x y p q s) = order_book s"
  by (simp add: executeTrade_def Let_def split: prod.splits)

lemma trades_executeTrade:
  "trades (executeTrade x y p q s) =
     trades s @ [\<lparr>buy_order_id = getId (heap s (if getSide (heap s x) = BUY then x else y)),
                  sell_order_id = getId (heap s (if getSide (heap s x) = BUY then y else x)),
                  price = p, quantity = q\<rparr>]"
  by (simp add: executeTrade_def Let_def)

lemma order_callback_executeTrade [simp]:
  "order_callback (executeTrade x y p q s) = order_callback s"
  "order_callback_calls (executeTrade x y p q s) = order_callback_calls s"
  by (simp_all add: executeTrade_def Let_def split: prod.splits)

lemma notifyOrderCallback_fields [simp]:
  "next_free (notifyOrderCallback ptr s) = next_free s"
  "order_book (notifyOrderCallback ptr s) = order_book s"
  "trades (notifyOrderCallback ptr s) = trades s"
  "order_callback (notifyOrderCallback ptr s) = order_callback s"
  by (simp_all add: notifyOrderCallback_def)

lemma reduce_order_fields [simp]:
  "next_free (reduce_order a q s) = next_free s"
  "order_book (reduce_order a q s) = order_book s"
  "trades (reduce_order a q s) = trades s"
  "order_callback (reduce_order a q s) = order_callback s"
  "order_callback_calls (reduce_order a q s) = order_callback_calls s"
  by (simp_all add: reduce_order_def)

lemma update_book_quantity_fields [simp]:
  "next_free (update_book_quantity a q s) = next_free s"
  "trades (update_book_quantity a q s) = trades s"
  "order_callback (update_book_quantity a q s) = order_callback s"
  "order_callback_calls (update_book_quantity a q s) = order_callback_calls s"
  by (simp_all add: update_book_quantity_def)

lemma remove_if_filled_fields [simp]:
  "next_free (remove_if_filled m s) = next_free s"
  "trades (remove_if_filled m s) = trades s"
  "order_callback (remove_if_filled m s) = order_callback s"
  by (simp_all add: remove_if_filled_def)

lemma settle_fields:
  "next_free (settle a m bp q s) = next_free s"
  "order_callback (settle a m bp q s) = order_callback s"
  "trades (settle a m bp q s) =
     trades s @ [\<lparr>buy_order_id = getId (heap s (if getSide (heap s a) = BUY then a else m)),
                  sell_order_id = getId (heap s (if getSide (heap s a) = BUY then m else a)),
                  price = bp, quantity = q\<rparr>]"
  by (simp_all add: settle_def trades_executeTrade)

lemma settle_heap:
  "m \<noteq> a \<Longrightarrow>
   heap (settle a m bp q s) =
     (heap s)(a := reduceQuantity q (heap s a), m := reduceQuantity q (heap s m))"
  by (simp add: settle_def)

lemma reduceQuantity_fields [simp]:
  "getId (reduceQuantity q x) = getId x"
  "getSide (reduceQuantity q x) = getSide x"
  "getPrice (reduceQuantity q x) = getPrice x"
  "getQuantity (reduceQuantity q x) = getQuantity x"
  "getTimestamp (reduceQuantity q x) = getTimestamp x"
  "getType (reduceQuantity q x) = getType x"
  by (simp_all add: reduceQuantity_def Let_def)

lemma reduceQuantity_remaining:
  "q \<le> getRemainingQuantity x \<Longrightarrow>
   getRemainingQuantity (reduceQuantity q x) = getRemainingQuantity x - q"
  by (simp add: reduceQuantity_def Let_def min_absorb1)

text \<open>The book after the trade: the trade changes the store at the two orders, takes
  the quantity from the aggregate of the maker's level and, when the maker is filled,
  removes it.\<close>

lemma settle_book:
  assumes ok: "book_ok (heap s) (order_book s)"
    and fresh: "order_map (order_book s) (getId (heap s a)) = None"
    and im: "order_map (order_book s) (getId (heap s m)) = Some m"
    and q: "q \<le> getRemainingQuantity (heap s m)"
    and s': "s' = settle a m bp q s"
  shows "book_ok (heap s') (order_book s')"
    and "order_map (order_book s') =
           (if isFilled (heap s' m) then (order_map (order_book s))(getId (heap s m) := None)
            else order_map (order_book s))"
    and "\<And>sd p l'. lv (order_book s') sd p = Some l' \<Longrightarrow> \<exists>l. lv (order_book s) sd p = Some l"
proof -
  let ?h = "heap s" and ?b = "order_book s"
  from ok have idx: "index_ok ?h ?b" by (simp add: book_ok_def)
  have na: "\<forall>i. order_map ?b i \<noteq> Some a"
    using fresh_id_not_indexed [OF idx fresh] by simp
  with im have ma: "m \<noteq> a" by auto
  define h1 where "h1 = ?h(a := reduceQuantity q (?h a))"
  define x' where "x' = reduceQuantity q (?h m)"
  define h2 where "h2 = h1(m := x')"
  define b5 where "b5 = updateOrderQuantity h2 (getId (?h m))
                          (getRemainingQuantity x' + q) (getRemainingQuantity x') ?b"
  have h1m: "h1 m = ?h m" using ma by (simp add: h1_def)
  have ok1: "book_ok h1 ?b"
    unfolding h1_def using ok na by (rule book_ok_heap_upd_other)
  have rem: "getRemainingQuantity x' = getRemainingQuantity (h1 m) - q"
    using q by (simp add: x'_def h1m reduceQuantity_remaining)
  have same: "getId x' = getId (h1 m)" "getSide x' = getSide (h1 m)"
    "getPrice x' = getPrice (h1 m)"
    by (simp_all add: x'_def h1m)
  have b5eq: "b5 = updateOrderQuantity (h1(m := x')) (getId (?h m))
                     (getRemainingQuantity x' + q) (getRemainingQuantity x') ?b"
    by (simp add: b5_def h2_def)
  have fill: "book_ok h2 b5" "order_map b5 = order_map ?b"
    "\<And>sd p. map_option orders (lv b5 sd p) = map_option orders (lv ?b sd p)"
    unfolding h2_def
    by (rule book_ok_fill [OF ok1 im same rem b5eq])+
  define s5 where "s5 = update_book_quantity m q (update_book_quantity a q
        (reduce_order m q (reduce_order a q (executeTrade a m bp q s))))"
  have h5: "heap s5 = h2"
    using ma by (simp add: s5_def h2_def h1_def x'_def)
  have b5': "order_book s5 = b5"
    using ma fresh
    by (simp add: s5_def update_book_quantity_def reduce_order_def b5_def h2_def h1_def x'_def
        updateOrderQuantity_None)
  have s'5: "s' = remove_if_filled m s5" by (simp add: s' settle_def s5_def)
  have hs': "heap s' = h2" by (simp add: s'5 h5)
  have idm: "getId (h2 m) = getId (?h m)" by (simp add: h2_def x'_def)
  have dom5: "\<exists>l. lv ?b sd p = Some l" if "lv b5 sd p = Some l'" for sd p l'
    using fill(3) [of sd p] that by (cases "lv ?b sd p") auto
  show "book_ok (heap s') (order_book s')"
  proof (cases "isFilled (h2 m)")
    case True
    then have "order_book s' = snd (OrderBook_cancelOrder h2 (getId (?h m)) b5)"
      by (simp add: s'5 remove_if_filled_def h5 b5' idm)
    from book_ok_cancelOrder(1) [OF fill(1) _ this, of m] im fill(2) show ?thesis
      by (simp add: hs')
  next
    case False
    then have "order_book s' = b5" by (simp add: s'5 remove_if_filled_def h5 b5')
    with fill(1) show ?thesis by (simp add: hs')
  qed
  show "order_map (order_book s') =
           (if isFilled (heap s' m) then (order_map ?b)(getId (?h m) := None) else order_map ?b)"
  proof (cases "isFilled (h2 m)")
    case True
    then have "order_book s' = snd (OrderBook_cancelOrder h2 (getId (?h m)) b5)"
      by (simp add: s'5 remove_if_filled_def h5 b5' idm)
    from book_ok_cancelOrder(2) [OF fill(1) _ this, of m] im fill(2) True show ?thesis
      by (simp add: hs')
  next
    case False
    then have "order_book s' = b5" by (simp add: s'5 remove_if_filled_def h5 b5')
    with fill(2) False show ?thesis by (simp add: hs')
  qed
  show "\<exists>l. lv ?b sd p = Some l" if l': "lv (order_book s') sd p = Some l'" for sd p l'
  proof (cases "isFilled (h2 m)")
    case True
    then have "order_book s' = snd (OrderBook_cancelOrder h2 (getId (?h m)) b5)"
      by (simp add: s'5 remove_if_filled_def h5 b5' idm)
    from book_ok_cancelOrder(3) [OF fill(1) _ this, of m sd p l'] im fill(2) l'
    obtain l5 where "lv b5 sd p = Some l5" by auto
    then show ?thesis by (rule dom5)
  next
    case False
    then have "order_book s' = b5" by (simp add: s'5 remove_if_filled_def h5 b5')
    with l' show ?thesis using dom5 by simp
  qed
qed

subsection \<open>Choosing the maker\<close>

lemma opposing_opposite:
  "opposing a s = getOrdersForMatching (opposite (getSide (heap s a))) (order_book s)"
  by (simp add: opposing_def opposite_def)

lemma getOrdersForMatching_Nil: "getPriceLevelMap sd b = [] \<Longrightarrow> getOrdersForMatching sd b = []"
  by (simp add: getOrdersForMatching_def)

lemma compatible_iff:
  "getSide y = opposite (getSide x) \<Longrightarrow>
   compatible x y =
     (if getSide x = BUY then getPrice y \<le> getPrice x else getPrice x \<le> getPrice y)"
  by (cases "getSide x") (auto simp: compatible_def opposite_def)

lemma compatible_opposite: "compatible x y \<Longrightarrow> getSide y = opposite (getSide x)"
  by (auto simp: compatible_def opposite_def)

lemma match_pick:
  assumes ok: "book_ok (heap s) (order_book s)"
    and unf: "unfilled (heap s) (order_book s)"
    and ne: "opposing a s \<noteq> []"
    and fbm: "find_best_match (heap s) a (opposing a s) (None, 0) = (Some m, bp)"
  shows "\<exists>k l. lv (order_book s) (opposite (getSide (heap s a))) k = Some l \<and>
           opposing a s = orders l \<and> m \<in> set (orders l) \<and> bp = k \<and>
           candidate (heap s) a m \<and>
           (\<forall>p l'. lv (order_book s) (opposite (getSide (heap s a))) p = Some l' \<longrightarrow>
              (if opposite (getSide (heap s a)) = BUY then p \<le> k else k \<le> p)) \<and>
           (\<forall>c\<in>set (orders l). getTimestamp (heap s m) \<le> getTimestamp (heap s c))"
proof -
  let ?h = "heap s" and ?b = "order_book s" and ?opp = "opposite (getSide (heap s a))"
  from ok have lev: "levels_ok ?h ?b" and srt: "maps_sorted ?b" by (simp_all add: book_ok_def)
  from ne have "getPriceLevelMap ?opp ?b \<noteq> []"
    using getOrdersForMatching_Nil [of ?opp ?b] by (auto simp: opposing_opposite)
  from getOrdersForMatching_best [OF srt this] obtain k l where
    l: "lv ?b ?opp k = Some l" and ol: "opposing a s = orders l" and
    best: "\<forall>p l'. lv ?b ?opp p = Some l' \<longrightarrow> (if ?opp = BUY then p \<le> k else k \<le> p)"
    by (auto simp: opposing_opposite)
  note lD = levels_okD [OF lev l]
  from find_best_match_Some_min [OF fbm] have
    m: "m \<in> set (orders l)" "candidate ?h a m" and
    mn: "\<forall>c\<in>set (orders l). candidate ?h a c \<longrightarrow> getTimestamp (?h m) \<le> getTimestamp (?h c)"
    by (auto simp: ol)
  have cand: "candidate ?h a c" if c: "c \<in> set (orders l)" for c
  proof -
    from lD(5) [OF c] unf have "\<not> isFilled (?h c)" by (auto simp: unfilled_def)
    moreover from m(2) have "compatible (?h a) (?h m)" by (simp add: candidate_def)
    then have "compatible (?h a) (?h c)"
      using lD(3,4) [OF c] lD(3,4) [OF m(1)]
      by (cases "getSide (?h a)") (auto simp: compatible_iff)
    ultimately show ?thesis by (simp add: candidate_def)
  qed
  have "\<forall>c\<in>set (opposing a s). candidate ?h a c \<longrightarrow> getPrice (?h c) = k"
    using lD(4) by (simp add: ol)
  from find_best_match_price [OF fbm this] m have "bp = k"
    by (auto simp: ol)
  with l ol m best mn cand show ?thesis by blast
qed

lemma match_none:
  assumes ok: "book_ok (heap s) (order_book s)"
    and unf: "unfilled (heap s) (order_book s)"
    and none: "match_iteration a s = None"
    and l': "lv (order_book s) (opposite (getSide (heap s a))) p = Some l'"
  shows "if getSide (heap s a) = BUY then getPrice (heap s a) < p else p < getPrice (heap s a)"
proof -
  let ?h = "heap s" and ?b = "order_book s" and ?opp = "opposite (getSide (heap s a))"
  from ok have lev: "levels_ok ?h ?b" and srt: "maps_sorted ?b" by (simp_all add: book_ok_def)
  have ne: "opposing a s \<noteq> []"
    using getOrdersForMatching_empty [OF srt lev, of ?opp p] l'
    by (auto simp: opposing_opposite)
  with match_iteration_None [OF none] obtain bp where
    fbm: "find_best_match ?h a (opposing a s) (None, 0) = (None, bp)" by blast
  from ne have "getPriceLevelMap ?opp ?b \<noteq> []"
    using getOrdersForMatching_Nil [of ?opp ?b] by (auto simp: opposing_opposite)
  from getOrdersForMatching_best [OF srt this] obtain k l where
    l: "lv ?b ?opp k = Some l" and ol: "opposing a s = orders l" and
    best: "\<forall>p l'. lv ?b ?opp p = Some l' \<longrightarrow> (if ?opp = BUY then p \<le> k else k \<le> p)"
    by (auto simp: opposing_opposite)
  note lD = levels_okD [OF lev l]
  from lD(1) obtain c where c: "c \<in> set (orders l)" by (cases "orders l") auto
  from find_best_match_None [OF fbm] c have nc: "\<not> candidate ?h a c" by (simp add: ol)
  from lD(5) [OF c] unf have "\<not> isFilled (?h c)" by (auto simp: unfilled_def)
  with nc have "\<not> compatible (?h a) (?h c)" by (simp add: candidate_def)
  then have "if getSide (?h a) = BUY then getPrice (?h a) < k else k < getPrice (?h a)"
    using lD(3,4) [OF c] by (cases "getSide (?h a)") (auto simp: compatible_iff not_le)
  with best l' show ?thesis
    by (cases "getSide (?h a)") (auto simp: opposite_def split: if_splits)
qed

subsection \<open>Invariants of the engine\<close>

lemma traded_append:
  "traded (ts @ [t]) i =
     traded ts i + (if buy_order_id t = i \<or> sell_order_id t = i then unat (quantity t) else 0)"
  by (simp add: traded_def)

lemma trade_between_cong:
  assumes "trade_between h m k t"
    and "getId (h' m) = getId (h m)" "getSide (h' m) = getSide (h m)"
      "getPrice (h' m) = getPrice (h m)"
    and "getId (h' k) = getId (h k)" "getSide (h' k) = getSide (h k)"
  shows "trade_between h' m k t"
  using assms by (simp add: trade_between_def)

lemma unat_sub_le: "(q :: u64) \<le> r \<Longrightarrow> unat (r - q) + unat q = unat r"
  by (simp add: unat_sub word_le_nat_alt)

lemma settle_linv:
  assumes li: "matching_ok a s"
    and ne: "opposing a s \<noteq> []"
    and fbm: "find_best_match (heap s) a (opposing a s) (None, 0) = (Some m, bp)"
    and q: "q = min (getRemainingQuantity (heap s a)) (getRemainingQuantity (heap s m))"
    and s': "s' = settle a m bp q s"
  shows "matching_ok a s'"
proof -
  let ?h = "heap s" and ?b = "order_book s" and ?opp = "opposite (getSide (heap s a))"
  let ?h' = "heap s'" and ?b' = "order_book s'"
  from li have ok: "book_ok ?h ?b" and unf: "unfilled ?h ?b" and nc: "no_cross ?b"
    and al: "allocated s" and idd: "ids_distinct s" and con: "conserved s"
    and tok: "trades_ok s" and nf: "Suc a = next_free s"
    and fresh: "order_map ?b (getId (?h a)) = None"
    by (simp_all add: matching_ok_def engine_ok_def)
  from ok have lev: "levels_ok ?h ?b" and idx: "index_ok ?h ?b" by (simp_all add: book_ok_def)
  from match_pick [OF ok unf ne fbm] obtain k l where
    l: "lv ?b ?opp k = Some l" and ml: "m \<in> set (orders l)" and bp: "bp = k"
    and cand: "candidate ?h a m" by blast
  note lD = levels_okD [OF lev l]
  from lD(5) [OF ml] have im: "order_map ?b (getId (?h m)) = Some m" .
  from lD(3,4) [OF ml] have sm: "getSide (?h m) = ?opp" and pm: "getPrice (?h m) = k"
    by simp_all
  have na: "order_map ?b i \<noteq> Some a" for i
    using fresh_id_not_indexed [OF idx fresh] .
  with im have ma: "m \<noteq> a" by auto
  from im al have "m < next_free s" by (auto simp: allocated_def)
  with nf ma have mlt: "m < a" by simp
  have qm: "q \<le> getRemainingQuantity (?h m)" and qa: "q \<le> getRemainingQuantity (?h a)"
    by (simp_all add: q)
  note book = settle_book [OF ok fresh im qm s']
  have hp: "?h' = ?h(a := reduceQuantity q (?h a), m := reduceQuantity q (?h m))"
    using ma by (simp add: s' settle_heap)
  have same: "getId (?h' c) = getId (?h c)" "getSide (?h' c) = getSide (?h c)"
    "getPrice (?h' c) = getPrice (?h c)" "getQuantity (?h' c) = getQuantity (?h c)" for c
    by (simp_all add: hp)
  have other: "?h' c = ?h c" if "c \<noteq> a" "c \<noteq> m" for c
    using that by (simp add: hp)
  have rema: "getRemainingQuantity (?h' a) = getRemainingQuantity (?h a) - q"
    using ma qa by (simp add: hp reduceQuantity_remaining)
  have remm: "getRemainingQuantity (?h' m) = getRemainingQuantity (?h m) - q"
    using qm by (simp add: hp reduceQuantity_remaining)
  have nf': "next_free s' = next_free s" by (simp add: s' settle_fields)
  define t where "t = \<lparr>buy_order_id = getId (?h (if getSide (?h a) = BUY then a else m)),
                        sell_order_id = getId (?h (if getSide (?h a) = BUY then m else a)),
                        price = bp, quantity = q\<rparr>"
  have tr': "trades s' = trades s @ [t]" by (simp add: s' settle_fields t_def)
  have sub: "order_map ?b i = Some c" if "order_map ?b' i = Some c" for i c
    using that book(2) by (auto split: if_splits)
  have "unfilled ?h' ?b'"
    unfolding unfilled_def
  proof (intro allI impI)
    fix i c assume c: "order_map ?b' i = Some c"
    from sub [OF c] have old: "order_map ?b i = Some c" .
    with na have ca: "c \<noteq> a" by auto
    show "\<not> isFilled (?h' c)"
    proof (cases "c = m")
      case True
      with index_okD(1) [OF idx old] have "i = getId (?h m)" by simp
      with c book(2) True show ?thesis by (auto split: if_splits)
    next
      case False
      with ca other [of c] old unf show ?thesis by (auto simp: unfilled_def)
    qed
  qed
  moreover have "no_cross ?b'"
    unfolding no_cross_def
  proof (intro allI impI)
    fix pb lb pa la assume "lv ?b' BUY pb = Some lb" "lv ?b' SELL pa = Some la"
    with book(3) obtain lb0 la0 where "lv ?b BUY pb = Some lb0" "lv ?b SELL pa = Some la0"
      by blast
    with nc show "pb < pa" by (auto simp: no_cross_def)
  qed
  moreover have "allocated s'"
    using al sub by (auto simp: allocated_def nf')
  moreover have "ids_distinct s'"
    using idd by (simp add: ids_distinct_def nf' same)
  moreover have "conserved s'"
    unfolding conserved_def
  proof (intro allI impI)
    fix c assume "c < next_free s'"
    then have c: "c < next_free s" by (simp add: nf')
    from con c have old: "unat (getQuantity (?h c)) =
        unat (getRemainingQuantity (?h c)) + traded (trades s) (getId (?h c))"
      by (simp add: conserved_def)
    have alt: "a < next_free s" and mlt': "m < next_free s" using nf mlt by simp_all
    have ida: "getId (?h c) = getId (?h a) \<longleftrightarrow> c = a"
      using idd c alt by (auto simp: ids_distinct_def)
    have idm: "getId (?h c) = getId (?h m) \<longleftrightarrow> c = m"
      using idd c mlt' by (auto simp: ids_distinct_def)
    have ref: "(buy_order_id t = getId (?h c) \<or> sell_order_id t = getId (?h c)) \<longleftrightarrow>
               (c = a \<or> c = m)"
      using ida idm by (auto simp: t_def)
    show "unat (getQuantity (?h' c)) =
        unat (getRemainingQuantity (?h' c)) + traded (trades s') (getId (?h' c))"
    proof (cases "c = a \<or> c = m")
      case True
      then have "unat (getRemainingQuantity (?h' c)) + unat q = unat (getRemainingQuantity (?h c))"
        using rema remm unat_sub_le [OF qa] unat_sub_le [OF qm] by auto
      moreover have "traded (trades s') (getId (?h c)) = traded (trades s) (getId (?h c)) + unat q"
        using True ref by (simp add: tr' traded_append t_def)
      ultimately show ?thesis using old by (simp add: same)
    next
      case False
      then have "traded (trades s') (getId (?h c)) = traded (trades s) (getId (?h c))"
        using ref by (simp add: tr' traded_append)
      with False other [of c] old show ?thesis by (simp add: same)
    qed
  qed
  moreover have "trades_ok s'"
    unfolding trades_ok_def
  proof
    fix u assume "u \<in> set (trades s')"
    then consider "u \<in> set (trades s)" | "u = t" by (auto simp: tr')
    then show "\<exists>m k. m < k \<and> k < next_free s' \<and> trade_between ?h' m k u"
    proof cases
      case 1
      with tok obtain m0 k0 where "m0 < k0" "k0 < next_free s" "trade_between ?h m0 k0 u"
        by (auto simp: trades_ok_def)
      moreover from this(3) have "trade_between ?h' m0 k0 u"
        by (rule trade_between_cong) (simp_all add: same)
      ultimately show ?thesis by (auto simp: nf')
    next
      case 2
      have "trade_between ?h m a t"
        using sm pm bp by (simp add: trade_between_def t_def)
      then have "trade_between ?h' m a t"
        by (rule trade_between_cong) (simp_all add: same)
      moreover from nf have "a < next_free s'" by (simp add: nf')
      ultimately show ?thesis using 2 mlt by blast
    qed
  qed
  moreover have "order_map ?b' (getId (?h' a)) = None"
    using fresh book(2) by (simp add: same)
  ultimately show ?thesis using book(1) nf by (simp add: matching_ok_def engine_ok_def nf')
qed

subsection \<open>The matching loop\<close>

lemma match_iteration_linv:
  assumes "matching_ok a s" and "match_iteration a s = Some s'"
  shows "matching_ok a s'"
proof -
  from assms(2) obtain m bp where
    "opposing a s \<noteq> []"
    "find_best_match (heap s) a (opposing a s) (None, 0) = (Some m, bp)"
    "s' = settle a m bp (min (getRemainingQuantity (heap s a)) (getRemainingQuantity (heap s m))) s"
    by (rule match_iteration_settle)
  from settle_linv [OF assms(1) this(1,2) refl this(3)] show ?thesis .
qed

lemma matchOrder_loop_linv:
  "matching_ok a s \<Longrightarrow> matchOrder_loop a (n, s) = (n', s') \<Longrightarrow>
   matching_ok a s' \<and> (isFilled (heap s' a) \<or> match_iteration a s' = None)"
proof (induction a "(n, s)" arbitrary: n s rule: matchOrder_loop.induct)
  case (1 a n s)
  show ?case
  proof (cases "isFilled (heap s a)")
    case True
    with "1.prems" show ?thesis by simp
  next
    case False
    show ?thesis
    proof (cases "match_iteration a s")
      case None
      with False "1.prems" show ?thesis by simp
    next
      case (Some s1)
      with False "1.prems"(2) have loop: "matchOrder_loop a (n + 1, s1) = (n', s')" by simp
      from "1.prems"(1) Some have "matching_ok a s1" by (rule match_iteration_linv)
      from "1.hyps" [OF False Some this loop] show ?thesis .
    qed
  qed
qed

subsection \<open>What never changes in the store\<close>

lemma later_refl [simp]: "later x x"
  by (simp add: later_def)

lemma later_trans: "later x'' x' \<Longrightarrow> later x' x \<Longrightarrow> later x'' x"
  by (auto simp: later_def)

lemma later_reduceQuantity [simp]: "later (reduceQuantity q x) x"
  by (simp add: later_def) (simp add: reduceQuantity_def Let_def word_sub_le)

lemma match_iteration_later:
  assumes "match_iteration a s = Some s'"
  shows "later (heap s' c) (heap s c)" and "next_free s' = next_free s"
    and "order_callback s' = order_callback s"
proof -
  from assms obtain m bp where
    fbm: "find_best_match (heap s) a (opposing a s) (None, 0) = (Some m, bp)" and
    s': "s' = settle a m bp (min (getRemainingQuantity (heap s a)) (getRemainingQuantity (heap s m))) s"
    by (rule match_iteration_settle)
  from find_best_match_Some [OF fbm] have "m \<noteq> a" by auto
  then show "later (heap s' c) (heap s c)" by (simp add: s' settle_heap)
  show "next_free s' = next_free s" "order_callback s' = order_callback s"
    by (simp_all add: s' settle_fields)
qed

lemma matchOrder_loop_later:
  "matchOrder_loop a (n, s) = (n', s') \<Longrightarrow>
   later (heap s' c) (heap s c) \<and> next_free s' = next_free s \<and>
   order_callback s' = order_callback s"
proof (induction a "(n, s)" arbitrary: n s rule: matchOrder_loop.induct)
  case (1 a n s)
  show ?case
  proof (cases "isFilled (heap s a)")
    case True
    with "1.prems" show ?thesis by simp
  next
    case False
    show ?thesis
    proof (cases "match_iteration a s")
      case None
      with False "1.prems" show ?thesis by simp
    next
      case (Some s1)
      with False "1.prems" have "matchOrder_loop a (n + 1, s1) = (n', s')" by simp
      from "1.hyps" [OF False Some this] match_iteration_later(1) [OF Some, of c]
        match_iteration_later(2,3) [OF Some]
      show ?thesis by (auto intro: later_trans)
    qed
  qed
qed

subsection \<open>submitOrder and cancelOrder keep the invariants\<close>

lemma make_shared_fields:
  "fst (make_shared x s) = next_free s"
  "heap (snd (make_shared x s)) = (heap s)(next_free s := x)"
  "next_free (snd (make_shared x s)) = Suc (next_free s)"
  "order_book (snd (make_shared x s)) = order_book s"
  "trades (snd (make_shared x s)) = trades s"
  "order_callback (snd (make_shared x s)) = order_callback s"
  "order_callback_calls (snd (make_shared x s)) = order_callback_calls s"
  by (simp_all add: make_shared_def)

lemma Order_new_fields [simp]:
  "getId (Order_new i sd p q ts) = i"
  "getSide (Order_new i sd p q ts) = sd"
  "getPrice (Order_new i sd p q ts) = p"
  "getQuantity (Order_new i sd p q ts) = q"
  "getRemainingQuantity (Order_new i sd p q ts) = q"
  "getTimestamp (Order_new i sd p q ts) = ts"
  "getType (Order_new i sd p q ts) = LIMIT"
  by (simp_all add: Order_new_def)

lemma traded_unreferenced:
  "\<forall>t\<in>set ts. buy_order_id t \<noteq> i \<and> sell_order_id t \<noteq> i \<Longrightarrow> traded ts i = 0"
  by (induction ts) (auto simp: traded_def)

lemma inv_make_shared:
  assumes iv: "engine_ok s" and fresh: "\<forall>c<next_free s. getId (heap s c) \<noteq> getId x"
    and rq: "getRemainingQuantity x = getQuantity x"
  shows "matching_ok (next_free s) (snd (make_shared x s))"
proof -
  let ?n = "next_free s" and ?h = "heap s" and ?b = "order_book s"
  let ?s1 = "snd (make_shared x s)"
  let ?h1 = "?h(?n := x)"
  from iv have ok: "book_ok ?h ?b" and unf: "unfilled ?h ?b" and nc: "no_cross ?b"
    and al: "allocated s" and idd: "ids_distinct s" and con: "conserved s"
    and tok: "trades_ok s"
    by (simp_all add: engine_ok_def)
  from ok have idx: "index_ok ?h ?b" by (simp add: book_ok_def)
  have na: "\<forall>i. order_map ?b i \<noteq> Some ?n"
    using al by (auto simp: allocated_def)
  have old: "?h1 c = ?h c" if "c < ?n" for c using that by simp
  have "book_ok ?h1 ?b" using ok na by (rule book_ok_heap_upd_other)
  moreover have "unfilled ?h1 ?b" using unf na by (rule unfilled_heap_upd_other)
  moreover have "allocated ?s1"
    using al by (auto simp: allocated_def make_shared_fields less_Suc_eq)
  moreover have "ids_distinct ?s1"
    unfolding ids_distinct_def make_shared_fields
  proof (intro allI impI)
    fix a c assume "a < Suc ?n" "c < Suc ?n" "getId (?h1 a) = getId (?h1 c)"
    with idd fresh show "a = c"
      by (cases "a = ?n"; cases "c = ?n") (auto simp: ids_distinct_def less_Suc_eq)
  qed
  moreover have tb: "\<exists>m k. m < k \<and> k < ?n \<and> trade_between ?h m k t" if "t \<in> set (trades s)" for t
    using tok that by (auto simp: trades_ok_def)
  have "trades_ok ?s1"
    unfolding trades_ok_def make_shared_fields
  proof
    fix t assume "t \<in> set (trades s)"
    from tb [OF this] obtain m k where mk: "m < k" "k < ?n" "trade_between ?h m k t" by blast
    from mk(3) have "trade_between ?h1 m k t"
      by (rule trade_between_cong) (use mk(1,2) in simp_all)
    with mk(1,2) show "\<exists>m k. m < k \<and> k < Suc ?n \<and> trade_between ?h1 m k t"
      by (auto simp: less_Suc_eq)
  qed
  moreover have "conserved ?s1"
    unfolding conserved_def make_shared_fields
  proof (intro allI impI)
    fix a assume a: "a < Suc ?n"
    show "unat (getQuantity (?h1 a)) =
        unat (getRemainingQuantity (?h1 a)) + traded (trades s) (getId (?h1 a))"
    proof (cases "a = ?n")
      case True
      have "buy_order_id t \<noteq> getId x \<and> sell_order_id t \<noteq> getId x" if "t \<in> set (trades s)" for t
      proof -
        from tb [OF that] obtain m k where mk: "m < k" "k < ?n" "trade_between ?h m k t" by blast
        then have "m < ?n" by simp
        with mk fresh show ?thesis by (auto simp: trade_between_def)
      qed
      then have "traded (trades s) (getId x) = 0" by (intro traded_unreferenced) blast
      with True rq show ?thesis by simp
    next
      case False
      with a con show ?thesis by (simp add: conserved_def)
    qed
  qed
  moreover have "order_map ?b (getId x) = None"
  proof (cases "order_map ?b (getId x)")
    case None
    then show ?thesis .
  next
    case (Some c)
    from index_okD(1) [OF idx Some] al Some fresh show ?thesis
      by (auto simp: allocated_def)
  qed
  ultimately show ?thesis using nc
    by (simp add: matching_ok_def engine_ok_def make_shared_fields)
qed

lemma no_cross_addOrder:
  assumes nc: "no_cross b"
    and b': "b' = snd (OrderBook_addOrder h (Some a) b)"
    and far: "\<And>p l. lv b (opposite (getSide (h a))) p = Some l \<Longrightarrow>
                if getSide (h a) = BUY then getPrice (h a) < p else p < getPrice (h a)"
  shows "no_cross b'"
  unfolding no_cross_def
proof (intro allI impI)
  fix pb lb pa la assume pb: "lv b' BUY pb = Some lb" and pa: "lv b' SELL pa = Some la"
  note spec = addOrder_spec(2) [OF b']
  show "pb < pa"
  proof (cases "getSide (h a)")
    case BUY
    with pa spec [of SELL pa] have old: "lv b SELL pa = Some la" by simp
    show ?thesis
    proof (cases "pb = getPrice (h a)")
      case True
      with far [of pa la] old BUY show ?thesis by (simp add: opposite_def)
    next
      case False
      with pb spec [of BUY pb] BUY have "lv b BUY pb = Some lb" by simp
      with old nc show ?thesis by (auto simp: no_cross_def)
    qed
  next
    case SELL
    with pb spec [of BUY pb] have old: "lv b BUY pb = Some lb" by simp
    show ?thesis
    proof (cases "pa = getPrice (h a)")
      case True
      with far [of pb lb] old SELL show ?thesis by (simp add: opposite_def)
    next
      case False
      with pa spec [of SELL pa] SELL have "lv b SELL pa = Some la" by simp
      with old nc show ?thesis by (auto simp: no_cross_def)
    qed
  qed
qed

lemma after_match_linv:
  assumes "matching_ok a s"
  shows "matching_ok a (after_match a s)"
    and "isFilled (heap (after_match a s) a) \<or> match_iteration a (after_match a s) = None"
proof -
  obtain n' s' where loop: "matchOrder_loop a (0, s) = (n', s')"
    by (cases "matchOrder_loop a (0, s)")
  then have "after_match a s = s'" by (simp add: after_match_def matchOrder_def)
  with matchOrder_loop_linv [OF assms loop]
  show "matching_ok a (after_match a s)"
    and "isFilled (heap (after_match a s) a) \<or> match_iteration a (after_match a s) = None"
    by simp_all
qed

lemma after_match_later:
  "later (heap (after_match a s) c) (heap s c)"
  "next_free (after_match a s) = next_free s"
  "order_callback (after_match a s) = order_callback s"
proof -
  obtain n' s' where loop: "matchOrder_loop a (0, s) = (n', s')"
    by (cases "matchOrder_loop a (0, s)")
  then have "after_match a s = s'" by (simp add: after_match_def matchOrder_def)
  with matchOrder_loop_later [OF loop, of c]
  show "later (heap (after_match a s) c) (heap s c)"
    "next_free (after_match a s) = next_free s"
    "order_callback (after_match a s) = order_callback s"
    by simp_all
qed

lemma submitOrder_unfold:
  "submitOrder (Some a) s =
     (True,
      if \<not> isFilled (heap (after_match a s) a)
      then notifyOrderCallback (Some a)
             ((after_match a s)\<lparr>order_book :=
                 snd (OrderBook_addOrder (heap (after_match a s)) (Some a)
                        (order_book (after_match a s)))\<rparr>)
      else after_match a s)"
  by (simp add: submitOrder_def after_match_def Let_def)

lemma inv_fields_cong:
  assumes "heap s' = heap s" "next_free s' = next_free s" "trades s' = trades s"
    "order_book s' = order_book s"
  shows "engine_ok s' = engine_ok s"
  using assms
  by (simp add: engine_ok_def allocated_def ids_distinct_def conserved_def trades_ok_def)

lemma submitOrder_inv:
  assumes li: "matching_ok a s"
  shows "engine_ok (snd (submitOrder (Some a) s))"
proof -
  let ?s2 = "after_match a s"
  note l2 = after_match_linv [OF li]
  from l2(1) have iv: "engine_ok ?s2" and nf: "Suc a = next_free ?s2"
    and fresh: "order_map (order_book ?s2) (getId (heap ?s2 a)) = None"
    by (simp_all add: matching_ok_def)
  show ?thesis
  proof (cases "isFilled (heap ?s2 a)")
    case True
    with iv show ?thesis by (simp add: submitOrder_unfold)
  next
    case False
    let ?h = "heap ?s2" and ?b = "order_book ?s2"
    define b3 where "b3 = snd (OrderBook_addOrder ?h (Some a) ?b)"
    define s3 where "s3 = ?s2\<lparr>order_book := b3\<rparr>"
    from iv have ok: "book_ok ?h ?b" and unf: "unfilled ?h ?b" and nc: "no_cross ?b"
      and al: "allocated ?s2" and idd: "ids_distinct ?s2" and con: "conserved ?s2"
      and tok: "trades_ok ?s2"
      by (simp_all add: engine_ok_def)
    from False l2(2) have none: "match_iteration a ?s2 = None" by simp
    have om: "order_map b3 = (order_map ?b)(getId (?h a) \<mapsto> a)"
      unfolding b3_def by (rule addOrder_spec(1)) simp
    have "book_ok ?h b3" using ok fresh b3_def by (rule book_ok_addOrder)
    moreover have "unfilled ?h b3"
      using unf False by (auto simp: unfilled_def om)
    moreover have "no_cross b3"
      using nc b3_def
    proof (rule no_cross_addOrder)
      fix p l assume "lv ?b (opposite (getSide (?h a))) p = Some l"
      from match_none [OF ok unf none this]
      show "if getSide (?h a) = BUY then getPrice (?h a) < p else p < getPrice (?h a)" .
    qed
    moreover have "allocated s3"
      using al nf by (auto simp: allocated_def s3_def om)
    ultimately have "engine_ok s3"
      using idd con tok
      by (simp add: engine_ok_def s3_def ids_distinct_def conserved_def trades_ok_def)
    moreover have "snd (submitOrder (Some a) s) = notifyOrderCallback (Some a) s3"
      using False by (simp add: submitOrder_unfold s3_def b3_def)
    ultimately show ?thesis by (simp add: inv_fields_cong [of "notifyOrderCallback (Some a) s3" s3])
  qed
qed

lemma cancelOrder_unfold:
  "cancelOrder i s =
     (case order_map (order_book s) i of
        None \<Rightarrow> (False, s)
      | Some a \<Rightarrow>
          (True, notifyOrderCallback None
                   (s\<lparr>order_book := snd (OrderBook_cancelOrder (heap s) i (order_book s))\<rparr>)))"
proof (cases "order_map (order_book s) i")
  case None
  then show ?thesis by (simp add: cancelOrder_def cancelOrder_None)
next
  case (Some a)
  obtain r b' where c: "OrderBook_cancelOrder (heap s) i (order_book s) = (r, b')"
    by (cases "OrderBook_cancelOrder (heap s) i (order_book s)")
  with Some have "r" "order_map b' i = None"
    by (auto simp: OrderBook_cancelOrder_def Let_def)
  with Some c show ?thesis by (simp add: cancelOrder_def getOrder_def)
qed

lemma cancelOrder_inv:
  assumes iv: "engine_ok s"
  shows "engine_ok (snd (cancelOrder i s))"
proof (cases "order_map (order_book s) i")
  case None
  with iv show ?thesis by (simp add: cancelOrder_unfold)
next
  case (Some a)
  let ?h = "heap s" and ?b = "order_book s"
  define b' where "b' = snd (OrderBook_cancelOrder ?h i ?b)"
  define s1 where "s1 = s\<lparr>order_book := b'\<rparr>"
  from iv have ok: "book_ok ?h ?b" and unf: "unfilled ?h ?b" and nc: "no_cross ?b"
    and al: "allocated s" and idd: "ids_distinct s" and con: "conserved s"
    and tok: "trades_ok s"
    by (simp_all add: engine_ok_def)
  note c = book_ok_cancelOrder [OF ok Some b'_def]
  have "unfilled ?h b'" using unf by (auto simp: unfilled_def c(2) split: if_splits)
  moreover have "no_cross b'"
    unfolding no_cross_def
  proof (intro allI impI)
    fix pb lb pa la assume "lv b' BUY pb = Some lb" "lv b' SELL pa = Some la"
    with c(3) obtain lb0 la0 where "lv ?b BUY pb = Some lb0" "lv ?b SELL pa = Some la0"
      by blast
    with nc show "pb < pa" by (auto simp: no_cross_def)
  qed
  moreover have "allocated s1"
    using al by (auto simp: allocated_def s1_def c(2) split: if_splits)
  ultimately have "engine_ok s1"
    using c(1) idd con tok
    by (simp add: engine_ok_def s1_def ids_distinct_def conserved_def trades_ok_def)
  moreover have "snd (cancelOrder i s) = notifyOrderCallback None s1"
    using Some by (simp add: cancelOrder_unfold s1_def b'_def)
  ultimately show ?thesis by (simp add: inv_fields_cong [of "notifyOrderCallback None s1" s1])
qed

subsection \<open>Runs\<close>

lemma exec_Submit:
  "exec s (Submit i sd p q ts) =
     snd (submitOrder (Some (next_free s)) (snd (make_shared (Order_new i sd p q ts) s)))"
  by (simp add: make_shared_def)

lemma submitOrder_heap:
  "heap (snd (submitOrder (Some a) s)) = heap (after_match a s)"
  "next_free (snd (submitOrder (Some a) s)) = next_free s"
  "order_callback (snd (submitOrder (Some a) s)) = order_callback s"
  by (simp_all add: submitOrder_unfold after_match_later)

lemma cancelOrder_heap:
  "heap (snd (cancelOrder i s)) = heap s"
  "next_free (snd (cancelOrder i s)) = next_free s"
  "order_callback (snd (cancelOrder i s)) = order_callback s"
  "trades (snd (cancelOrder i s)) = trades s"
  by (simp_all add: cancelOrder_unfold split: option.splits)

lemma exec_later:
  "c < next_free s \<Longrightarrow> later (heap (exec s op) c) (heap s c)"
  "next_free s \<le> next_free (exec s op)"
  "order_callback (exec s op) = order_callback s"
proof -
  show "later (heap (exec s op) c) (heap s c)" if "c < next_free s"
  proof (cases op)
    case (Submit i sd p q ts)
    let ?s1 = "snd (make_shared (Order_new i sd p q ts) s)"
    from that have "heap ?s1 c = heap s c" by (simp add: make_shared_fields)
    with after_match_later(1) [of "next_free s" ?s1 c] Submit show ?thesis
      by (simp add: exec_Submit submitOrder_heap del: exec.simps)
  next
    case (Cancel i)
    then show ?thesis by (simp add: cancelOrder_heap)
  qed
  show "next_free s \<le> next_free (exec s op)"
    by (cases op)
      (simp_all add: exec_Submit submitOrder_heap make_shared_fields cancelOrder_heap
        del: exec.simps(1))
  show "order_callback (exec s op) = order_callback s"
    by (cases op)
      (simp_all add: exec_Submit submitOrder_heap make_shared_fields cancelOrder_heap
        del: exec.simps(1))
qed

lemma alloc_ids_Submit:
  "alloc_ids (snd (submitOrder (Some (next_free s)) (snd (make_shared (Order_new i sd p q ts) s)))) =
     alloc_ids s @ [i]"
proof -
  let ?n = "next_free s"
  let ?s1 = "snd (make_shared (Order_new i sd p q ts) s)"
  let ?s' = "snd (submitOrder (Some ?n) ?s1)"
  have nf: "next_free ?s' = Suc ?n"
    by (simp add: submitOrder_heap make_shared_fields)
  have id: "getId (heap ?s' c) = getId (heap ?s1 c)" for c
    using after_match_later(1) [of ?n ?s1 c]
    by (simp add: submitOrder_heap later_def)
  have "map (\<lambda>a. getId (heap ?s' a)) [0..<?n] = map (\<lambda>a. getId (heap s a)) [0..<?n]"
    by (intro map_cong) (simp_all add: id make_shared_fields)
  moreover have "getId (heap ?s' ?n) = i" by (simp add: id make_shared_fields)
  ultimately show ?thesis by (simp add: alloc_ids_def nf)
qed

lemma exec_alloc_ids: "alloc_ids (exec s op) = alloc_ids s @ submitted_ids [op]"
proof (cases op)
  case (Submit i sd p q ts)
  then show ?thesis by (simp only: exec_Submit alloc_ids_Submit submitted_ids.simps)
next
  case (Cancel i)
  then show ?thesis by (simp add: alloc_ids_def cancelOrder_heap)
qed

lemma ids_distinct_alloc_ids: "ids_distinct s = distinct (alloc_ids s)"
proof -
  have "distinct (alloc_ids s) = inj_on (\<lambda>a. getId (heap s a)) {0..<next_free s}"
    by (simp add: alloc_ids_def distinct_map)
  then show ?thesis by (auto simp: ids_distinct_def inj_on_def)
qed

lemma exec_inv:
  assumes iv: "engine_ok s" and fresh: "\<forall>i\<in>set (submitted_ids [op]). i \<notin> set (alloc_ids s)"
  shows "engine_ok (exec s op)"
proof (cases op)
  case (Submit i sd p q ts)
  with fresh have "\<forall>c<next_free s. getId (heap s c) \<noteq> getId (Order_new i sd p q ts)"
    by (auto simp: alloc_ids_def)
  from inv_make_shared [OF iv this] have "matching_ok (next_free s) (snd (make_shared (Order_new i sd p q ts) s))"
    by simp
  from submitOrder_inv [OF this] Submit show ?thesis
    by (simp add: exec_Submit del: exec.simps)
next
  case (Cancel i)
  with cancelOrder_inv [OF iv] show ?thesis by simp
qed

lemma run_snoc: "run cb (ops @ [op]) = exec (run cb ops) op"
  by (simp add: run_def)

lemma run_append: "run cb (ops @ ops') = foldl exec (run cb ops) ops'"
  by (simp add: run_def)

lemma submitted_ids_append: "submitted_ids (ops @ ops') = submitted_ids ops @ submitted_ids ops'"
  by (induction ops rule: submitted_ids.induct) simp_all

lemma inv_new: "engine_ok (MatchingEngine_new cb)"
  by (simp add: engine_ok_def MatchingEngine_new_def OrderBook_new_def book_ok_def maps_sorted_def
      levels_ok_def index_ok_def totals_ok_def unfilled_def no_cross_def allocated_def
      ids_distinct_def conserved_def trades_ok_def lv_def getPriceLevelMap_def)

lemma alloc_ids_new: "alloc_ids (MatchingEngine_new cb) = []"
  by (simp add: alloc_ids_def MatchingEngine_new_def)

lemma run_inv:
  "distinct (submitted_ids ops) \<Longrightarrow>
   engine_ok (run cb ops) \<and> alloc_ids (run cb ops) = submitted_ids ops"
proof (induction ops rule: rev_induct)
  case Nil
  then show ?case by (simp add: run_def inv_new alloc_ids_new)
next
  case (snoc op ops)
  from snoc.prems have d: "distinct (submitted_ids ops)"
    and fresh: "\<forall>i\<in>set (submitted_ids [op]). i \<notin> set (submitted_ids ops)"
    by (auto simp: submitted_ids_append)
  from snoc.IH [OF d] have iv: "engine_ok (run cb ops)" and ids: "alloc_ids (run cb ops) = submitted_ids ops"
    by simp_all
  from exec_inv [OF iv] fresh ids have "engine_ok (exec (run cb ops) op)" by simp
  then show ?case by (simp add: run_snoc exec_alloc_ids ids submitted_ids_append)
qed





section \<open>The claims\<close>

subsection \<open>Cancellation\<close>

lemma filled_not_indexed:
  assumes iv: "engine_ok s" and a: "a < next_free s" and f: "isFilled (heap s a)"
  shows "order_map (order_book s) (getId (heap s a)) = None"
proof (cases "order_map (order_book s) (getId (heap s a))")
  case None
  then show ?thesis .
next
  case (Some c)
  from iv have idx: "index_ok (heap s) (order_book s)" and unf: "unfilled (heap s) (order_book s)"
    and al: "allocated s" and idd: "ids_distinct s"
    by (simp_all add: engine_ok_def book_ok_def)
  from index_okD(1) [OF idx Some] have "getId (heap s c) = getId (heap s a)" .
  moreover from al Some have "c < next_free s" by (auto simp: allocated_def)
  ultimately have "c = a" using idd a by (auto simp: ids_distinct_def)
  with unf Some f show ?thesis by (auto simp: unfilled_def)
qed

text \<open>
  C9. For every state of the book and every id that the id index does not hold,
  \<^verbatim>\<open>OrderBook::cancelOrder\<close> and \<^verbatim>\<open>MatchingEngine::cancelOrder\<close> return false and
  leave the bid map, the ask map and the index (the whole state) unchanged; for
  every id that the index holds they return true, and the id is absent afterwards, so
  a second cancel returns false. After any sequence of submit and cancel operations
  with distinct ids, the id of an order that is fully filled is not in the index.
\<close>

theorem cancel_absent_noop:
  "(order_map (order_book s) i = None \<longrightarrow>
      OrderBook_cancelOrder (heap s) i (order_book s) = (False, order_book s) \<and>
      cancelOrder i s = (False, s)) \<and>
   (order_map (order_book s) i \<noteq> None \<longrightarrow>
      fst (OrderBook_cancelOrder (heap s) i (order_book s)) \<and> fst (cancelOrder i s) \<and>
      order_map (order_book (snd (cancelOrder i s))) i = None) \<and>
   (distinct (submitted_ids ops) \<longrightarrow>
      (\<forall>a<next_free (run cb ops). isFilled (heap (run cb ops) a) \<longrightarrow>
         order_map (order_book (run cb ops)) (getId (heap (run cb ops) a)) = None))"
proof (intro conjI impI allI)
  assume "order_map (order_book s) i = None"
  then show "OrderBook_cancelOrder (heap s) i (order_book s) = (False, order_book s)"
    and "cancelOrder i s = (False, s)"
    by (simp_all add: cancelOrder_None cancelOrder_unfold)
next
  assume "order_map (order_book s) i \<noteq> None"
  then obtain a where a: "order_map (order_book s) i = Some a" by auto
  then show "fst (OrderBook_cancelOrder (heap s) i (order_book s))"
    by (simp add: OrderBook_cancelOrder_def Let_def)
  from a show "fst (cancelOrder i s)" by (simp add: cancelOrder_unfold)
  from a show "order_map (order_book (snd (cancelOrder i s))) i = None"
    by (simp add: cancelOrder_unfold OrderBook_cancelOrder_def Let_def)
next
  fix a
  assume "distinct (submitted_ids ops)" "a < next_free (run cb ops)"
    "isFilled (heap (run cb ops) a)"
  with run_inv [of ops cb]
  show "order_map (order_book (run cb ops)) (getId (heap (run cb ops) a)) = None"
    by (auto intro: filled_not_indexed)
qed

theorem cancel_absent_noop_witness:
  "order_map (order_book (run False [Submit 1 BUY 100 10 1])) 2 = None \<and>
   cancelOrder 2 (run False [Submit 1 BUY 100 10 1]) = (False, run False [Submit 1 BUY 100 10 1]) \<and>
   order_map (order_book (run False [Submit 1 BUY 100 10 1])) 1 \<noteq> None \<and>
   fst (cancelOrder 1 (run False [Submit 1 BUY 100 10 1])) \<and>
   order_map (order_book (snd (cancelOrder 1 (run False [Submit 1 BUY 100 10 1])))) 1 = None \<and>
   distinct (submitted_ids [Submit 1 BUY 100 10 1, Submit 2 SELL 100 10 2]) \<and>
   0 < next_free (run False [Submit 1 BUY 100 10 1, Submit 2 SELL 100 10 2]) \<and>
   isFilled (heap (run False [Submit 1 BUY 100 10 1, Submit 2 SELL 100 10 2]) 0) \<and>
   order_map (order_book (run False [Submit 1 BUY 100 10 1, Submit 2 SELL 100 10 2]))
     (getId (heap (run False [Submit 1 BUY 100 10 1, Submit 2 SELL 100 10 2]) 0)) = None"
proof -
  let ?s = "run False [Submit 1 BUY 100 10 1]"
  let ?ops = "[Submit 1 BUY 100 10 1, Submit 2 SELL 100 10 2]"
  have h1: "order_map (order_book ?s) 2 = None" by code_simp
  have h2: "order_map (order_book ?s) 1 \<noteq> None" by code_simp
  have h3: "distinct (submitted_ids ?ops)" by code_simp
  have h4: "0 < next_free (run False ?ops)" by code_simp
  have h5: "isFilled (heap (run False ?ops) 0)" by code_simp
  from cancel_absent_noop [of ?s 2] h1 have c1: "cancelOrder 2 ?s = (False, ?s)" by blast
  from cancel_absent_noop [of ?s 1] h2 have c2: "fst (cancelOrder 1 ?s)"
    and c3: "order_map (order_book (snd (cancelOrder 1 ?s))) 1 = None" by blast+
  from cancel_absent_noop [of _ _ ?ops False] h3 h4 h5
  have c4: "order_map (order_book (run False ?ops)) (getId (heap (run False ?ops) 0)) = None"
    by blast
  from h1 h2 h3 h4 h5 c1 c2 c3 c4 show ?thesis by blast
qed

text \<open>
  C10. For every id that the index holds, \<^verbatim>\<open>MatchingEngine::cancelOrder\<close> returns true;
  the lookup \<^verbatim>\<open>getOrder(order_id)\<close> that follows the erasure finds nothing, and the
  order callback, when one is registered, is called once, with the null pointer; when
  none is registered nothing is called.
\<close>

theorem cancel_notifies_null:
  "order_map (order_book s) i = Some a \<Longrightarrow>
   fst (cancelOrder i s) \<and>
   getOrder i (order_book (snd (cancelOrder i s))) = None \<and>
   order_callback_calls (snd (cancelOrder i s)) =
     (if order_callback s then order_callback_calls s @ [None] else order_callback_calls s)"
  by (simp add: cancelOrder_unfold getOrder_def notifyOrderCallback_def
      OrderBook_cancelOrder_def Let_def)

theorem cancel_notifies_null_witness:
  "order_map (order_book (run True [Submit 1 BUY 100 10 1])) 1 = Some 0 \<and>
   fst (cancelOrder 1 (run True [Submit 1 BUY 100 10 1])) \<and>
   getOrder 1 (order_book (snd (cancelOrder 1 (run True [Submit 1 BUY 100 10 1])))) = None \<and>
   order_callback_calls (snd (cancelOrder 1 (run True [Submit 1 BUY 100 10 1]))) =
     [Some 0, None]"
proof -
  let ?s = "run True [Submit 1 BUY 100 10 1]"
  have h: "order_map (order_book ?s) 1 = Some 0" by code_simp
  have cb: "order_callback ?s" by code_simp
  have calls: "order_callback_calls ?s = [Some 0]" by code_simp
  from cancel_notifies_null [OF h] cb calls h show ?thesis by simp
qed

subsection \<open>Input validation\<close>

lemma matchOrder_filled: "isFilled (heap s a) \<Longrightarrow> matchOrder a s = (0, s)"
  by (simp add: matchOrder_def)

text \<open>
  C8, as stated, fails: a new order of quantity zero is not rejected.
  \<^verbatim>\<open>submitOrder\<close> reports failure only by returning false, and it returns true.
\<close>

theorem zero_quantity_counterexample:
  "getQuantity (heap (snd (make_shared (Order_new 1 BUY 100 0 1) (MatchingEngine_new False))) 0) = 0 \<and>
   fst (submitOrder (Some 0)
          (snd (make_shared (Order_new 1 BUY 100 0 1) (MatchingEngine_new False))))"
  by code_simp

text \<open>
  C8, amended. For every submitted order whose original quantity is zero (a new
  order, whose remaining quantity is its original quantity), \<^verbatim>\<open>submitOrder\<close> returns
  true and the state of the engine is unchanged: no trade is emitted, nothing is added
  to the book and no callback is called.
\<close>

theorem zero_quantity_submission:
  assumes "getQuantity (heap s a) = 0"
    and "getRemainingQuantity (heap s a) = getQuantity (heap s a)"
  shows "submitOrder (Some a) s = (True, s)"
  using assms by (simp add: submitOrder_def matchOrder_filled isFilled_def)

theorem zero_quantity_submission_witness:
  "getQuantity (heap (snd (make_shared (Order_new 1 BUY 100 0 1) (run True [Submit 7 SELL 100 5 0]))) 1) = 0 \<and>
   getRemainingQuantity (heap (snd (make_shared (Order_new 1 BUY 100 0 1) (run True [Submit 7 SELL 100 5 0]))) 1) =
     getQuantity (heap (snd (make_shared (Order_new 1 BUY 100 0 1) (run True [Submit 7 SELL 100 5 0]))) 1) \<and>
   submitOrder (Some 1) (snd (make_shared (Order_new 1 BUY 100 0 1) (run True [Submit 7 SELL 100 5 0]))) =
     (True, snd (make_shared (Order_new 1 BUY 100 0 1) (run True [Submit 7 SELL 100 5 0])))"
proof -
  let ?s = "snd (make_shared (Order_new 1 BUY 100 0 1) (run True [Submit 7 SELL 100 5 0]))"
  have h1: "getQuantity (heap ?s 1) = 0" by code_simp
  have h2: "getRemainingQuantity (heap ?s 1) = getQuantity (heap ?s 1)" by code_simp
  from zero_quantity_submission [OF h1 h2] h1 h2 show ?thesis by blast
qed

text \<open>
  C7, as stated, fails: order 1 rests in the book, a second order with id 1 is created
  and added. \<^verbatim>\<open>OrderBook::addOrder\<close> and \<^verbatim>\<open>MatchingEngine::submitOrder\<close> return true, the
  index entry of id 1 now points to the second order, and the level at its price holds
  both orders.
\<close>

theorem duplicate_id_counterexample:
  "order_map (order_book (snd (make_shared (Order_new 1 BUY 100 5 2) (run False [Submit 1 BUY 100 10 1]))))
     (getId (heap (snd (make_shared (Order_new 1 BUY 100 5 2) (run False [Submit 1 BUY 100 10 1]))) 1)) = Some 0 \<and>
   fst (OrderBook_addOrder
          (heap (snd (make_shared (Order_new 1 BUY 100 5 2) (run False [Submit 1 BUY 100 10 1]))))
          (Some 1)
          (order_book (snd (make_shared (Order_new 1 BUY 100 5 2) (run False [Submit 1 BUY 100 10 1]))))) \<and>
   bids (snd (OrderBook_addOrder
          (heap (snd (make_shared (Order_new 1 BUY 100 5 2) (run False [Submit 1 BUY 100 10 1]))))
          (Some 1)
          (order_book (snd (make_shared (Order_new 1 BUY 100 5 2) (run False [Submit 1 BUY 100 10 1])))))) =
     [(100, \<lparr>level_price = 100, total_quantity = 15, orders = [0, 1]\<rparr>)] \<and>
   bids (order_book (snd (make_shared (Order_new 1 BUY 100 5 2) (run False [Submit 1 BUY 100 10 1])))) =
     [(100, \<lparr>level_price = 100, total_quantity = 10, orders = [0]\<rparr>)] \<and>
   fst (submitOrder (Some 1)
          (snd (make_shared (Order_new 1 BUY 100 5 2) (run False [Submit 1 BUY 100 10 1])))) \<and>
   bids (order_book (snd (submitOrder (Some 1)
          (snd (make_shared (Order_new 1 BUY 100 5 2) (run False [Submit 1 BUY 100 10 1])))))) =
     [(100, \<lparr>level_price = 100, total_quantity = 15, orders = [0, 1]\<rparr>)]"
  by code_simp

text \<open>
  C7, amended. For every book state and every order whose id is already in the id
  index, \<^verbatim>\<open>OrderBook::addOrder\<close> does not fail and does not leave the book unchanged:
  it returns true, the index entry of the id points to the added order, and on the
  order's side the level at its price is the level that was there (a new level when
  there was none) with the order appended to its queue and its remaining quantity
  added to the aggregate. \<^verbatim>\<open>MatchingEngine::submitOrder\<close> returns true as well.
\<close>

theorem duplicate_id_is_added:
  assumes "order_map b (getId (h a)) = Some c"
  shows "fst (OrderBook_addOrder h (Some a) b) \<and>
         order_map (snd (OrderBook_addOrder h (Some a) b)) (getId (h a)) = Some a \<and>
         map_of (getPriceLevelMap (getSide (h a)) (snd (OrderBook_addOrder h (Some a) b)))
             (getPrice (h a)) =
           Some (PriceLevel_addOrder h a
                  (case map_of (getPriceLevelMap (getSide (h a)) b) (getPrice (h a)) of
                     Some l \<Rightarrow> l | None \<Rightarrow> PriceLevel_new (getPrice (h a)))) \<and>
         snd (OrderBook_addOrder h (Some a) b) \<noteq> b \<and>
         fst (submitOrder (Some a) s)"
proof -
  let ?b' = "snd (OrderBook_addOrder h (Some a) b)"
  let ?sd = "getSide (h a)" and ?p = "getPrice (h a)"
  define l0 where "l0 = (case lv b ?sd ?p of Some l \<Rightarrow> l | None \<Rightarrow> PriceLevel_new ?p)"
  have 1: "fst (OrderBook_addOrder h (Some a) b)"
    by (simp add: OrderBook_addOrder_def Let_def)
  have 2: "order_map ?b' (getId (h a)) = Some a"
    by (simp add: addOrder_spec(1) [OF refl])
  have 3: "lv ?b' ?sd ?p = Some (PriceLevel_addOrder h a l0)"
    by (simp add: addOrder_spec(2) [OF refl] l0_def)
  have 4: "?b' \<noteq> b"
  proof
    assume eq: "?b' = b"
    with 3 have l: "lv b ?sd ?p = Some (PriceLevel_addOrder h a l0)" by simp
    then have "l0 = PriceLevel_addOrder h a l0" by (subst l0_def) simp
    then have "orders l0 = orders (PriceLevel_addOrder h a l0)" by simp
    then show False by (simp add: sum_list_PriceLevel_addOrder)
  qed
  have 5: "fst (submitOrder (Some a) s)" by (simp add: submitOrder_unfold)
  from 1 2 3 4 5 show ?thesis by (simp add: lv_def l0_def)
qed

theorem duplicate_id_is_added_witness:
  "order_map (order_book (run False [Submit 1 BUY 100 10 1]))
     (getId (((heap (run False [Submit 1 BUY 100 10 1]))(1 := Order_new 1 BUY 100 5 2)) 1)) = Some 0 \<and>
   order_map (snd (OrderBook_addOrder ((heap (run False [Submit 1 BUY 100 10 1]))(1 := Order_new 1 BUY 100 5 2))
                    (Some 1) (order_book (run False [Submit 1 BUY 100 10 1])))) 1 = Some 1 \<and>
   snd (OrderBook_addOrder ((heap (run False [Submit 1 BUY 100 10 1]))(1 := Order_new 1 BUY 100 5 2))
          (Some 1) (order_book (run False [Submit 1 BUY 100 10 1]))) \<noteq>
     order_book (run False [Submit 1 BUY 100 10 1])"
proof -
  let ?s = "run False [Submit 1 BUY 100 10 1]"
  let ?h = "(heap ?s)(1 := Order_new 1 BUY 100 5 2)"
  have h: "order_map (order_book ?s) (getId (?h 1)) = Some 0" by code_simp
  have i: "getId (?h 1) = 1" by code_simp
  from duplicate_id_is_added [of "order_book ?s" ?h 1 0, OF h] h i show ?thesis by simp
qed

subsection \<open>The book after a run\<close>

lemma lv_of_member:
  assumes "maps_sorted b" and "(p, l) \<in> set (getPriceLevelMap sd b)"
  shows "lv b sd p = Some l"
proof -
  from assms(1) have "sorted_wrt (<) (map fst (getPriceLevelMap sd b))"
    by (simp add: maps_sorted_def)
  then have "distinct (map fst (getPriceLevelMap sd b))"
    by (simp add: strict_sorted_iff)
  with assms(2) show ?thesis by (simp add: lv_def)
qed

lemma bids_asks_getPriceLevelMap:
  "bids b = getPriceLevelMap BUY b" "asks b = getPriceLevelMap SELL b"
  by (simp_all add: getPriceLevelMap_def)

lemma best_bid_level:
  assumes "maps_sorted b" and "bids b \<noteq> []"
  shows "\<exists>l. lv b BUY (getBestBid b) = Some l"
  using map_of_last [of "bids b"] assms
  by (simp add: getBestBid_def lv_def maps_sorted_def bids_asks_getPriceLevelMap)

lemma best_ask_level:
  assumes "asks b \<noteq> []"
  shows "\<exists>l. lv b SELL (getBestAsk b) = Some l"
  using map_of_hd [of "asks b"] assms
  by (simp add: getBestAsk_def lv_def bids_asks_getPriceLevelMap)

text \<open>
  C4. After every sequence of submit and cancel operations with distinct ids, started
  on the empty book: when both sides of the book are non-empty, the best bid is
  strictly below the best ask; and no order that rests in the book crosses the best
  price of the opposing side (a resting buy order is priced strictly below the best
  ask, a resting sell order strictly above the best bid).
\<close>

theorem no_resting_cross:
  assumes "distinct (submitted_ids ops)"
  shows "(bids (order_book (run cb ops)) \<noteq> [] \<and> asks (order_book (run cb ops)) \<noteq> [] \<longrightarrow>
           getBestBid (order_book (run cb ops)) < getBestAsk (order_book (run cb ops))) \<and>
         (\<forall>i a. order_map (order_book (run cb ops)) i = Some a \<longrightarrow>
            (if getSide (heap (run cb ops) a) = BUY
             then asks (order_book (run cb ops)) = [] \<or>
                  getPrice (heap (run cb ops) a) < getBestAsk (order_book (run cb ops))
             else bids (order_book (run cb ops)) = [] \<or>
                  getBestBid (order_book (run cb ops)) < getPrice (heap (run cb ops) a)))"
proof -
  let ?s = "run cb ops"
  let ?b = "order_book ?s" and ?h = "heap ?s"
  from run_inv [OF assms, of cb] have iv: "engine_ok ?s" by simp
  then have srt: "maps_sorted ?b" and idx: "index_ok ?h ?b" and nc: "no_cross ?b"
    by (simp_all add: engine_ok_def book_ok_def)
  have cross: "pb < pa" if "lv ?b BUY pb = Some lb" "lv ?b SELL pa = Some la" for pb pa lb la
    using nc that by (auto simp: no_cross_def)
  have 1: "getBestBid ?b < getBestAsk ?b" if "bids ?b \<noteq> []" "asks ?b \<noteq> []"
    using best_bid_level [OF srt that(1)] best_ask_level [OF that(2)] cross by blast
  have 2: "if getSide (?h a) = BUY
           then asks ?b = [] \<or> getPrice (?h a) < getBestAsk ?b
           else bids ?b = [] \<or> getBestBid ?b < getPrice (?h a)"
    if a: "order_map ?b i = Some a" for i a
  proof -
    from index_okD(2) [OF idx a] obtain l where
      l: "lv ?b (getSide (?h a)) (getPrice (?h a)) = Some l" by blast
    show ?thesis
    proof (cases "getSide (?h a)")
      case BUY
      with l best_ask_level [of ?b] cross show ?thesis by auto
    next
      case SELL
      with l best_bid_level [OF srt] cross show ?thesis by auto
    qed
  qed
  from 1 2 show ?thesis by blast
qed

theorem no_resting_cross_witness:
  "distinct (submitted_ids [Submit 1 BUY 100 10 1, Submit 2 SELL 105 4 2, Submit 3 BUY 105 2 3, Cancel 9]) \<and>
   bids (order_book (run True [Submit 1 BUY 100 10 1, Submit 2 SELL 105 4 2, Submit 3 BUY 105 2 3, Cancel 9])) \<noteq> [] \<and>
   asks (order_book (run True [Submit 1 BUY 100 10 1, Submit 2 SELL 105 4 2, Submit 3 BUY 105 2 3, Cancel 9])) \<noteq> [] \<and>
   getBestBid (order_book (run True [Submit 1 BUY 100 10 1, Submit 2 SELL 105 4 2, Submit 3 BUY 105 2 3, Cancel 9])) <
     getBestAsk (order_book (run True [Submit 1 BUY 100 10 1, Submit 2 SELL 105 4 2, Submit 3 BUY 105 2 3, Cancel 9])) \<and>
   order_map (order_book (run True [Submit 1 BUY 100 10 1, Submit 2 SELL 105 4 2, Submit 3 BUY 105 2 3, Cancel 9])) 1 = Some 0 \<and>
   getSide (heap (run True [Submit 1 BUY 100 10 1, Submit 2 SELL 105 4 2, Submit 3 BUY 105 2 3, Cancel 9]) 0) = BUY \<and>
   getPrice (heap (run True [Submit 1 BUY 100 10 1, Submit 2 SELL 105 4 2, Submit 3 BUY 105 2 3, Cancel 9]) 0) <
     getBestAsk (order_book (run True [Submit 1 BUY 100 10 1, Submit 2 SELL 105 4 2, Submit 3 BUY 105 2 3, Cancel 9]))"
proof -
  let ?ops = "[Submit 1 BUY 100 10 1, Submit 2 SELL 105 4 2, Submit 3 BUY 105 2 3, Cancel 9]"
  let ?s = "run True ?ops"
  have d: "distinct (submitted_ids ?ops)" by code_simp
  have b: "bids (order_book ?s) \<noteq> []" by code_simp
  have a: "asks (order_book ?s) \<noteq> []" by code_simp
  have i: "order_map (order_book ?s) 1 = Some 0" by code_simp
  have sd: "getSide (heap ?s 0) = BUY" by code_simp
  note nrc = no_resting_cross [OF d, of True]
  from nrc b a have 1: "getBestBid (order_book ?s) < getBestAsk (order_book ?s)" by blast
  from nrc i have "if getSide (heap ?s 0) = BUY
     then asks (order_book ?s) = [] \<or> getPrice (heap ?s 0) < getBestAsk (order_book ?s)
     else bids (order_book ?s) = [] \<or> getBestBid (order_book ?s) < getPrice (heap ?s 0)"
    by blast
  with sd a have 2: "getPrice (heap ?s 0) < getBestAsk (order_book ?s)" by simp
  from d b a i sd 1 2 show ?thesis by blast
qed

subsection \<open>Aggregates\<close>

lemma unat_sum_list_u64:
  "unat (sum_list (map f xs) :: u64) = sum_list (map (\<lambda>x. unat (f x)) xs) mod 2 ^ 64"
proof (induction xs)
  case Nil
  then show ?case by simp
next
  case (Cons x xs)
  have "unat (f x + sum_list (map f xs)) = (unat (f x) + unat (sum_list (map f xs))) mod 2 ^ 64"
    by (simp add: unat_word_ariths)
  also have "\<dots> = (unat (f x) + sum_list (map (\<lambda>x. unat (f x)) xs) mod 2 ^ 64) mod 2 ^ 64"
    by (simp only: Cons.IH)
  also have "\<dots> = (unat (f x) + sum_list (map (\<lambda>x. unat (f x)) xs)) mod 2 ^ 64"
    by (rule mod_add_right_eq)
  finally show ?case by simp
qed

text \<open>
  C5, as stated, fails when the quantities of a level add up to \<open>2 ^ 64\<close> or more: two
  buy orders of quantity \<open>2 ^ 63\<close> rest at price 100, the cached \<open>total_quantity\<close> of the
  level is 0, and the remaining quantities of its queue add up to \<open>2 ^ 64\<close>.
\<close>

theorem aggregate_counterexample:
  "distinct (submitted_ids [Submit 1 BUY 100 9223372036854775808 1, Submit 2 BUY 100 9223372036854775808 2]) \<and>
   bids (order_book (run False [Submit 1 BUY 100 9223372036854775808 1, Submit 2 BUY 100 9223372036854775808 2])) =
     [(100, \<lparr>level_price = 100, total_quantity = 0, orders = [0, 1]\<rparr>)] \<and>
   unat (getRemainingQuantity (heap (run False [Submit 1 BUY 100 9223372036854775808 1, Submit 2 BUY 100 9223372036854775808 2]) 0)) +
   unat (getRemainingQuantity (heap (run False [Submit 1 BUY 100 9223372036854775808 1, Submit 2 BUY 100 9223372036854775808 2]) 1)) =
     18446744073709551616"
proof -
  let ?ops = "[Submit 1 BUY 100 9223372036854775808 1, Submit 2 BUY 100 9223372036854775808 2]"
  have d: "distinct (submitted_ids ?ops)" by code_simp
  have b: "bids (order_book (run False ?ops)) =
     [(100, \<lparr>level_price = 100, total_quantity = 0, orders = [0, 1]\<rparr>)]" by code_simp
  have r0: "getRemainingQuantity (heap (run False ?ops) 0) = 9223372036854775808" by code_simp
  have r1: "getRemainingQuantity (heap (run False ?ops) 1) = 9223372036854775808" by code_simp
  have u: "unat (9223372036854775808 :: u64) = 9223372036854775808" by simp
  from d b show ?thesis by (simp only: r0 r1 u) simp
qed

text \<open>
  C5, amended. After every sequence of submit and cancel operations with distinct ids,
  every price level present in the bid or ask map has a non-empty queue, and its
  cached \<open>total_quantity\<close> is the sum of the remaining quantities of the orders of its
  queue taken in 64-bit arithmetic, that is modulo \<open>2 ^ 64\<close>.
\<close>

theorem aggregate_consistency:
  assumes "distinct (submitted_ids ops)"
    and "(p, l) \<in> set (bids (order_book (run cb ops))) \<union> set (asks (order_book (run cb ops)))"
  shows "orders l \<noteq> [] \<and>
         total_quantity l = (\<Sum>a\<leftarrow>orders l. getRemainingQuantity (heap (run cb ops) a)) \<and>
         unat (total_quantity l) =
           (\<Sum>a\<leftarrow>orders l. unat (getRemainingQuantity (heap (run cb ops) a))) mod 2 ^ 64"
proof -
  let ?s = "run cb ops"
  let ?b = "order_book ?s" and ?h = "heap ?s"
  from run_inv [OF assms(1), of cb] have iv: "engine_ok ?s" by simp
  then have srt: "maps_sorted ?b" and lev: "levels_ok ?h ?b" and tot: "totals_ok ?h ?b"
    by (simp_all add: engine_ok_def book_ok_def)
  from assms(2) obtain sd where "(p, l) \<in> set (getPriceLevelMap sd ?b)"
    by (auto simp: bids_asks_getPriceLevelMap)
  from lv_of_member [OF srt this] have l: "lv ?b sd p = Some l" .
  from totals_okD [OF tot l]
  have t: "total_quantity l = (\<Sum>a\<leftarrow>orders l. getRemainingQuantity (?h a))" .
  then have "unat (total_quantity l) =
      (\<Sum>a\<leftarrow>orders l. unat (getRemainingQuantity (?h a))) mod 2 ^ 64"
    by (simp only: unat_sum_list_u64)
  with t levels_okD(1) [OF lev l] show ?thesis by blast
qed

theorem aggregate_consistency_witness:
  "distinct (submitted_ids [Submit 1 BUY 100 10 1, Submit 2 BUY 100 4 2, Submit 3 SELL 100 3 3]) \<and>
   (100, \<lparr>level_price = 100, total_quantity = 11, orders = [0, 1]\<rparr>) \<in>
     set (bids (order_book (run False [Submit 1 BUY 100 10 1, Submit 2 BUY 100 4 2, Submit 3 SELL 100 3 3]))) \<union>
     set (asks (order_book (run False [Submit 1 BUY 100 10 1, Submit 2 BUY 100 4 2, Submit 3 SELL 100 3 3]))) \<and>
   (11 :: u64) =
     getRemainingQuantity (heap (run False [Submit 1 BUY 100 10 1, Submit 2 BUY 100 4 2, Submit 3 SELL 100 3 3]) 0) +
     getRemainingQuantity (heap (run False [Submit 1 BUY 100 10 1, Submit 2 BUY 100 4 2, Submit 3 SELL 100 3 3]) 1)"
proof -
  let ?ops = "[Submit 1 BUY 100 10 1, Submit 2 BUY 100 4 2, Submit 3 SELL 100 3 3]"
  let ?l = "\<lparr>level_price = 100, total_quantity = 11, orders = [0, 1]\<rparr>"
  have d: "distinct (submitted_ids ?ops)" by code_simp
  have m: "(100, ?l) \<in> set (bids (order_book (run False ?ops))) \<union> set (asks (order_book (run False ?ops)))"
    by code_simp
  from aggregate_consistency [OF d m] d m show ?thesis by simp
qed

subsection \<open>The states of a submission\<close>

lemma matchOrder_loop_steps:
  "matchOrder_loop a (n, s) = (n', s') \<Longrightarrow>
   \<exists>k. match_steps k a s = Some s' \<and> n' = n + of_nat k \<and>
       (isFilled (heap s' a) \<or> match_iteration a s' = None)"
proof (induction a "(n, s)" arbitrary: n s rule: matchOrder_loop.induct)
  case (1 a n s)
  show ?case
  proof (cases "isFilled (heap s a)")
    case True
    with "1.prems" have "match_steps 0 a s = Some s' \<and> n' = n + of_nat 0" by simp
    with True "1.prems" show ?thesis by (intro exI [of _ 0]) simp
  next
    case False
    show ?thesis
    proof (cases "match_iteration a s")
      case None
      with False "1.prems" have "match_steps 0 a s = Some s' \<and> n' = n + of_nat 0" by simp
      with False None "1.prems" show ?thesis by (intro exI [of _ 0]) simp
    next
      case (Some s1)
      with False "1.prems" have "matchOrder_loop a (n + 1, s1) = (n', s')" by simp
      from "1.hyps" [OF False Some this] obtain k where
        k: "match_steps k a s1 = Some s'" "n' = n + 1 + of_nat k"
        "isFilled (heap s' a) \<or> match_iteration a s' = None" by blast
      with False Some have "match_steps (Suc k) a s = Some s' \<and> n' = n + of_nat (Suc k)"
        by simp
      with k(3) show ?thesis by blast
    qed
  qed
qed

lemma match_steps_matching_ok:
  "matching_ok a s \<Longrightarrow> match_steps k a s = Some s' \<Longrightarrow> matching_ok a s'"
proof (induction k arbitrary: s)
  case 0
  then show ?case by simp
next
  case (Suc k)
  from Suc.prems(2) obtain s1 where
    s1: "match_iteration a s = Some s1" and rest: "match_steps k a s1 = Some s'"
    by (auto split: if_splits option.splits)
  from match_iteration_linv [OF Suc.prems(1) s1] have "matching_ok a s1" .
  from Suc.IH [OF this rest] show ?case .
qed

lemma submission_matching_ok:
  assumes d: "distinct (submitted_ids (ops @ [Submit i sd p q ts]))"
    and k: "match_steps k (next_free (run cb ops))
              (snd (make_shared (Order_new i sd p q ts) (run cb ops))) = Some s"
  shows "matching_ok (next_free (run cb ops)) s"
proof -
  from d have d': "distinct (submitted_ids ops)" and fresh: "i \<notin> set (submitted_ids ops)"
    by (simp_all add: submitted_ids_append)
  from run_inv [OF d', of cb] have iv: "engine_ok (run cb ops)"
    and ids: "alloc_ids (run cb ops) = submitted_ids ops" by simp_all
  from fresh ids have "i \<notin> set (alloc_ids (run cb ops))" by simp
  then have "\<forall>c<next_free (run cb ops).
      getId (heap (run cb ops) c) \<noteq> getId (Order_new i sd p q ts)"
    by (auto simp: alloc_ids_def)
  from inv_make_shared [OF iv this]
  have "matching_ok (next_free (run cb ops)) (snd (make_shared (Order_new i sd p q ts) (run cb ops)))"
    by simp
  from match_steps_matching_ok [OF this k] show ?thesis .
qed

lemma queued_iff:
  "c \<in> set (queued sd b) \<longleftrightarrow> (\<exists>p l. (p, l) \<in> set (getPriceLevelMap sd b) \<and> c \<in> set (orders l))"
  by (auto simp: queued_def)

lemma queued_lv:
  assumes "maps_sorted b"
  shows "c \<in> set (queued sd b) \<longleftrightarrow> (\<exists>p l. lv b sd p = Some l \<and> c \<in> set (orders l))"
proof
  assume "c \<in> set (queued sd b)"
  then obtain p l where "(p, l) \<in> set (getPriceLevelMap sd b)" "c \<in> set (orders l)"
    by (auto simp: queued_iff)
  with lv_of_member [OF assms] show "\<exists>p l. lv b sd p = Some l \<and> c \<in> set (orders l)" by blast
next
  assume "\<exists>p l. lv b sd p = Some l \<and> c \<in> set (orders l)"
  then obtain p l where "lv b sd p = Some l" "c \<in> set (orders l)" by blast
  then show "c \<in> set (queued sd b)"
    by (auto simp: queued_iff lv_def dest: map_of_SomeD)
qed

text \<open>Everything that one pass of the loop does, for an order being matched.\<close>

lemma best_match_exists:
  "match_iteration a s = Some s' \<Longrightarrow> \<exists>m. best_match a s = Some m"
  by (erule match_iteration_settle) (simp add: best_match_def)

lemma trade_step:
  assumes li: "matching_ok a s" and nfa: "\<not> isFilled (heap s a)"
    and it: "match_iteration a s = Some s'"
    and bm: "best_match a s = Some m"
    and qd: "q = min (getRemainingQuantity (heap s a)) (getRemainingQuantity (heap s m))"
  shows "m < a"
    and "m \<in> set (queued (opposite (getSide (heap s a))) (order_book s))"
    and "order_map (order_book s) (getId (heap s m)) = Some m"
    and "getSide (heap s m) = opposite (getSide (heap s a))"
    and "compatible (heap s a) (heap s m)"
    and "\<And>c. c \<in> set (queued (opposite (getSide (heap s a))) (order_book s)) \<Longrightarrow>
       \<not> better (opposite (getSide (heap s a))) (getPrice (heap s c)) (getPrice (heap s m)) \<and>
       \<not> (getPrice (heap s c) = getPrice (heap s m) \<and>
          getTimestamp (heap s c) < getTimestamp (heap s m))"
    and "q \<noteq> 0"
    and "trades s' = trades s @
       [\<lparr>buy_order_id = getId (heap s (if getSide (heap s a) = BUY then a else m)),
         sell_order_id = getId (heap s (if getSide (heap s a) = BUY then m else a)),
         price = getPrice (heap s m), quantity = q\<rparr>]"
    and "heap s' = (heap s)(a := reduceQuantity q (heap s a), m := reduceQuantity q (heap s m))"
    and "matching_ok a s'"
proof -
  let ?h = "heap s" and ?b = "order_book s" and ?opp = "opposite (getSide (heap s a))"
  from li have ok: "book_ok ?h ?b" and unf: "unfilled ?h ?b" and al: "allocated s"
    and nf: "Suc a = next_free s" and fresh: "order_map ?b (getId (?h a)) = None"
    by (simp_all add: matching_ok_def engine_ok_def)
  from ok have lev: "levels_ok ?h ?b" and idx: "index_ok ?h ?b" and srt: "maps_sorted ?b"
    by (simp_all add: book_ok_def)
  from it obtain m0 bp where
    ne: "opposing a s \<noteq> []" and
    fbm0: "find_best_match ?h a (opposing a s) (None, 0) = (Some m0, bp)" and
    s0: "s' = settle a m0 bp (min (getRemainingQuantity (?h a)) (getRemainingQuantity (?h m0))) s"
    by (rule match_iteration_settle)
  from fbm0 bm have "m0 = m" by (simp add: best_match_def)
  with fbm0 s0 have fbm: "find_best_match ?h a (opposing a s) (None, 0) = (Some m, bp)" and
    s': "s' = settle a m bp (min (getRemainingQuantity (?h a)) (getRemainingQuantity (?h m))) s"
    by simp_all
  note q_def = qd
  from match_pick [OF ok unf ne fbm] obtain k l where
    l: "lv ?b ?opp k = Some l" and ml: "m \<in> set (orders l)" and bp: "bp = k"
    and cand: "candidate ?h a m"
    and best: "\<forall>p l'. lv ?b ?opp p = Some l' \<longrightarrow> (if ?opp = BUY then p \<le> k else k \<le> p)"
    and mn: "\<forall>c\<in>set (orders l). getTimestamp (?h m) \<le> getTimestamp (?h c)"
    by blast
  note lD = levels_okD [OF lev l]
  from lD(5) [OF ml] have im: "order_map ?b (getId (?h m)) = Some m" .
  from lD(3,4) [OF ml] have sm: "getSide (?h m) = ?opp" and pm: "getPrice (?h m) = k"
    by simp_all
  have na: "order_map ?b i \<noteq> Some a" for i
    using fresh_id_not_indexed [OF idx fresh] .
  with im have ma: "m \<noteq> a" by auto
  from im al have "m < next_free s" by (auto simp: allocated_def)
  with nf ma have mlt: "m < a" by simp
  have 3: "m \<in> set (queued ?opp ?b)" using l ml by (auto simp: queued_lv [OF srt])
  have 6: "compatible (?h a) (?h m)" using cand by (simp add: candidate_def)
  have 7: "\<not> better ?opp (getPrice (?h c)) (getPrice (?h m)) \<and>
       \<not> (getPrice (?h c) = getPrice (?h m) \<and> getTimestamp (?h c) < getTimestamp (?h m))"
    if "c \<in> set (queued ?opp ?b)" for c
  proof -
    from that obtain p' l' where l': "lv ?b ?opp p' = Some l'" and cl: "c \<in> set (orders l')"
      by (auto simp: queued_lv [OF srt])
    from levels_okD(4) [OF lev l' cl] have pc: "getPrice (?h c) = p'" .
    from best l' have "if ?opp = BUY then p' \<le> k else k \<le> p'" by blast
    then have "\<not> better ?opp p' k" by (auto simp: better_def split: if_splits)
    moreover have "\<not> getTimestamp (?h c) < getTimestamp (?h m)" if "p' = k"
    proof -
      from that l l' have "l' = l" by simp
      with cl mn show ?thesis by (auto simp: not_less)
    qed
    ultimately show ?thesis by (auto simp: pc pm)
  qed
  from cand have "\<not> isFilled (?h m)" by (simp add: candidate_def)
  with nfa have 9: "q \<noteq> 0" by (auto simp: q_def isFilled_def min_def)
  have 10: "trades s' = trades s @
       [\<lparr>buy_order_id = getId (?h (if getSide (?h a) = BUY then a else m)),
         sell_order_id = getId (?h (if getSide (?h a) = BUY then m else a)),
         price = getPrice (?h m), quantity = q\<rparr>]"
    by (simp add: s' settle_fields q_def bp pm)
  have 11: "heap s' = ?h(a := reduceQuantity q (?h a), m := reduceQuantity q (?h m))"
    using ma by (simp add: s' settle_heap q_def)
  have 12: "matching_ok a s'" using li it by (rule match_iteration_linv)
  from mlt 3 im sm 6 7 9 10 11 12
  show "m < a"
    and "m \<in> set (queued (opposite (getSide (heap s a))) (order_book s))"
    and "order_map (order_book s) (getId (heap s m)) = Some m"
    and "getSide (heap s m) = opposite (getSide (heap s a))"
    and "compatible (heap s a) (heap s m)"
    and "\<And>c. c \<in> set (queued (opposite (getSide (heap s a))) (order_book s)) \<Longrightarrow>
       \<not> better (opposite (getSide (heap s a))) (getPrice (heap s c)) (getPrice (heap s m)) \<and>
       \<not> (getPrice (heap s c) = getPrice (heap s m) \<and>
          getTimestamp (heap s c) < getTimestamp (heap s m))"
    and "q \<noteq> 0"
    and "trades s' = trades s @
       [\<lparr>buy_order_id = getId (heap s (if getSide (heap s a) = BUY then a else m)),
         sell_order_id = getId (heap s (if getSide (heap s a) = BUY then m else a)),
         price = getPrice (heap s m), quantity = q\<rparr>]"
    and "heap s' = (heap s)(a := reduceQuantity q (heap s a), m := reduceQuantity q (heap s m))"
    and "matching_ok a s'"
    by blast+
qed

lemma match_steps_later:
  "match_steps k a s = Some s' \<Longrightarrow>
   later (heap s' c) (heap s c) \<and> next_free s' = next_free s \<and>
   order_callback s' = order_callback s"
proof (induction k arbitrary: s)
  case 0
  then show ?case by simp
next
  case (Suc k)
  from Suc.prems obtain s1 where
    s1: "match_iteration a s = Some s1" and rest: "match_steps k a s1 = Some s'"
    by (auto split: if_splits option.splits)
  from Suc.IH [OF rest] match_iteration_later(1) [OF s1, of c] match_iteration_later(2,3) [OF s1]
  show ?case by (auto intro: later_trans)
qed



subsection \<open>Price-time priority\<close>



lemma is_Some_the: "(case x of None \<Rightarrow> False | Some y \<Rightarrow> True) \<Longrightarrow> x = Some (the x)"
  by (cases x) simp_all


subsection \<open>Trades\<close>

lemma foldl_exec_later:
  "c < next_free s \<Longrightarrow>
   later (heap (foldl exec s ops) c) (heap s c) \<and> next_free s \<le> next_free (foldl exec s ops)"
proof (induction ops rule: rev_induct)
  case Nil
  then show ?case by simp
next
  case (snoc op ops)
  from snoc have 1: "later (heap (foldl exec s ops) c) (heap s c)"
    and 2: "next_free s \<le> next_free (foldl exec s ops)" by simp_all
  from snoc.prems 2 have "c < next_free (foldl exec s ops)" by simp
  from exec_later(1) [OF this, of op] exec_later(2) [of "foldl exec s ops" op] 1 2
  show ?case by (auto intro: later_trans)
qed

lemma submission_fields:
  assumes "match_steps k (next_free s0) (snd (make_shared (Order_new i sd p q ts) s0)) = Some s"
  shows "getId (heap s (next_free s0)) = i" and "getSide (heap s (next_free s0)) = sd"
    and "getPrice (heap s (next_free s0)) = p" and "next_free s = Suc (next_free s0)"
  using match_steps_later [OF assms, of "next_free s0"]
  by (simp_all add: later_def make_shared_fields)

text \<open>
  C2. After every sequence of submit and cancel operations with distinct ids, every
  trade of the log has two participants among the orders created: a maker \<open>m\<close> and a
  taker \<open>k\<close> created after it (when the taker was submitted the maker rested in the
  book), on opposite sides; the price of the trade is the limit price of the maker,
  \<open>buy_order_id\<close> is the id of the one on the buy side and \<open>sell_order_id\<close> the id of the
  one on the sell side; no sell order has the id \<open>buy_order_id\<close> and no buy order the
  id \<open>sell_order_id\<close>. And at every pass of the matching loop that trades, the order
  \<open>m\<close> that the scan selects is in the id index (it rests in the book), on the side
  opposite to the incoming order, and the trade appended to the log has the price of
  \<open>m\<close>, with the id of the incoming order as \<open>buy_order_id\<close> when the incoming order
  buys and as \<open>sell_order_id\<close> when it sells.
\<close>

theorem trade_price_and_sides:
  "(distinct (submitted_ids ops) \<and> t \<in> set (trades (run cb ops)) \<longrightarrow>
      (\<exists>m k. m < k \<and> k < next_free (run cb ops) \<and>
         getSide (heap (run cb ops) m) = opposite (getSide (heap (run cb ops) k)) \<and>
         price t = getPrice (heap (run cb ops) m) \<and>
         buy_order_id t =
           getId (heap (run cb ops) (if getSide (heap (run cb ops) k) = BUY then k else m)) \<and>
         sell_order_id t =
           getId (heap (run cb ops) (if getSide (heap (run cb ops) k) = BUY then m else k))) \<and>
      (\<forall>c<next_free (run cb ops).
         (getId (heap (run cb ops) c) = buy_order_id t \<longrightarrow> getSide (heap (run cb ops) c) = BUY) \<and>
         (getId (heap (run cb ops) c) = sell_order_id t \<longrightarrow> getSide (heap (run cb ops) c) = SELL))) \<and>
   (distinct (submitted_ids (ops @ [Submit i sd p q ts])) \<and>
    match_steps j (next_free (run cb ops))
      (snd (make_shared (Order_new i sd p q ts) (run cb ops))) = Some s \<and>
    \<not> isFilled (heap s (next_free (run cb ops))) \<and>
    match_iteration (next_free (run cb ops)) s = Some s' \<longrightarrow>
      (\<exists>m. best_match (next_free (run cb ops)) s = Some m \<and>
         order_map (order_book s) (getId (heap s m)) = Some m \<and>
         getSide (heap s m) = opposite sd \<and>
         trades s' = trades s @
           [\<lparr>buy_order_id = (if sd = BUY then i else getId (heap s m)),
             sell_order_id = (if sd = BUY then getId (heap s m) else i),
             price = getPrice (heap s m),
             quantity = min (getRemainingQuantity (heap s (next_free (run cb ops))))
                            (getRemainingQuantity (heap s m))\<rparr>]))"
proof (intro conjI impI; (elim conjE)?)
  let ?s = "run cb ops"
  assume d: "distinct (submitted_ids ops)" and t: "t \<in> set (trades ?s)"
  from run_inv [OF d, of cb] have iv: "engine_ok ?s" by simp
  then have tok: "trades_ok ?s" and idd: "ids_distinct ?s" by (simp_all add: engine_ok_def)
  from tok t obtain m k where mk: "m < k" "k < next_free ?s" "trade_between (heap ?s) m k t"
    by (auto simp: trades_ok_def)
  then show "\<exists>m k. m < k \<and> k < next_free ?s \<and>
         getSide (heap ?s m) = opposite (getSide (heap ?s k)) \<and>
         price t = getPrice (heap ?s m) \<and>
         buy_order_id t = getId (heap ?s (if getSide (heap ?s k) = BUY then k else m)) \<and>
         sell_order_id t = getId (heap ?s (if getSide (heap ?s k) = BUY then m else k))"
    unfolding trade_between_def by blast
  from mk have mn: "m < next_free ?s" by simp
  have uniq: "c = x" if "c < next_free ?s" "x < next_free ?s" "getId (heap ?s c) = getId (heap ?s x)" for c x
    using idd that by (auto simp: ids_distinct_def)
  show "\<forall>c<next_free ?s.
         (getId (heap ?s c) = buy_order_id t \<longrightarrow> getSide (heap ?s c) = BUY) \<and>
         (getId (heap ?s c) = sell_order_id t \<longrightarrow> getSide (heap ?s c) = SELL)"
  proof (intro allI impI conjI)
    fix c assume c: "c < next_free ?s" and "getId (heap ?s c) = buy_order_id t"
    with mk(3) have "getId (heap ?s c) = getId (heap ?s (if getSide (heap ?s k) = BUY then k else m))"
      by (simp add: trade_between_def)
    from uniq [OF c _ this] mk(2) mn have "c = (if getSide (heap ?s k) = BUY then k else m)"
      by simp
    with mk(3) show "getSide (heap ?s c) = BUY"
      by (cases "getSide (heap ?s k)") (auto simp: trade_between_def opposite_def)
  next
    fix c assume c: "c < next_free ?s" and "getId (heap ?s c) = sell_order_id t"
    with mk(3) have "getId (heap ?s c) = getId (heap ?s (if getSide (heap ?s k) = BUY then m else k))"
      by (simp add: trade_between_def)
    from uniq [OF c _ this] mk(2) mn have "c = (if getSide (heap ?s k) = BUY then m else k)"
      by simp
    with mk(3) show "getSide (heap ?s c) = SELL"
      by (cases "getSide (heap ?s k)") (auto simp: trade_between_def opposite_def)
  qed
next
  let ?a = "next_free (run cb ops)"
  assume d: "distinct (submitted_ids (ops @ [Submit i sd p q ts]))"
    and st: "match_steps j ?a (snd (make_shared (Order_new i sd p q ts) (run cb ops))) = Some s"
    and nf: "\<not> isFilled (heap s ?a)" and it: "match_iteration ?a s = Some s'"
  from submission_matching_ok [OF d st] have li: "matching_ok ?a s" .
  note f = submission_fields [OF st]
  from best_match_exists [OF it] obtain m where bm: "best_match ?a s = Some m" by blast
  note ts = trade_step [OF li nf it bm refl]
  from ts(8) f(1,2) have "trades s' = trades s @
           [\<lparr>buy_order_id = (if sd = BUY then i else getId (heap s m)),
             sell_order_id = (if sd = BUY then getId (heap s m) else i),
             price = getPrice (heap s m),
             quantity = min (getRemainingQuantity (heap s ?a)) (getRemainingQuantity (heap s m))\<rparr>]"
    by simp
  with bm ts(3,4) f(2)
  show "\<exists>m. best_match ?a s = Some m \<and>
         order_map (order_book s) (getId (heap s m)) = Some m \<and>
         getSide (heap s m) = opposite sd \<and>
         trades s' = trades s @
           [\<lparr>buy_order_id = (if sd = BUY then i else getId (heap s m)),
             sell_order_id = (if sd = BUY then getId (heap s m) else i),
             price = getPrice (heap s m),
             quantity = min (getRemainingQuantity (heap s ?a)) (getRemainingQuantity (heap s m))\<rparr>]"
    by auto
qed

theorem trade_price_and_sides_witness:
  "distinct (submitted_ids [Submit 1 BUY 100 10 1, Submit 2 SELL 100 4 2]) \<and>
   \<lparr>buy_order_id = 1, sell_order_id = 2, price = 100, quantity = 4\<rparr>
     \<in> set (trades (run False [Submit 1 BUY 100 10 1, Submit 2 SELL 100 4 2])) \<and>
   (\<exists>m k. m < k \<and> k < next_free (run False [Submit 1 BUY 100 10 1, Submit 2 SELL 100 4 2]) \<and>
      getSide (heap (run False [Submit 1 BUY 100 10 1, Submit 2 SELL 100 4 2]) m) =
        opposite (getSide (heap (run False [Submit 1 BUY 100 10 1, Submit 2 SELL 100 4 2]) k)) \<and>
      (100 :: u64) = getPrice (heap (run False [Submit 1 BUY 100 10 1, Submit 2 SELL 100 4 2]) m)) \<and>
   distinct (submitted_ids ([Submit 1 BUY 100 10 1] @ [Submit 2 SELL 100 4 2])) \<and>
   \<not> isFilled (heap (snd (make_shared (Order_new 2 SELL 100 4 2) (run False [Submit 1 BUY 100 10 1])))
        (next_free (run False [Submit 1 BUY 100 10 1]))) \<and>
   (\<exists>m. best_match (next_free (run False [Submit 1 BUY 100 10 1]))
          (snd (make_shared (Order_new 2 SELL 100 4 2) (run False [Submit 1 BUY 100 10 1]))) = Some m \<and>
        trades (the (match_iteration (next_free (run False [Submit 1 BUY 100 10 1]))
          (snd (make_shared (Order_new 2 SELL 100 4 2) (run False [Submit 1 BUY 100 10 1]))))) =
        trades (snd (make_shared (Order_new 2 SELL 100 4 2) (run False [Submit 1 BUY 100 10 1]))) @
          [\<lparr>buy_order_id = getId (heap (snd (make_shared (Order_new 2 SELL 100 4 2)
                               (run False [Submit 1 BUY 100 10 1]))) m),
            sell_order_id = 2,
            price = getPrice (heap (snd (make_shared (Order_new 2 SELL 100 4 2)
                               (run False [Submit 1 BUY 100 10 1]))) m),
            quantity = min (getRemainingQuantity (heap (snd (make_shared (Order_new 2 SELL 100 4 2)
                               (run False [Submit 1 BUY 100 10 1]))) (next_free (run False [Submit 1 BUY 100 10 1]))))
                           (getRemainingQuantity (heap (snd (make_shared (Order_new 2 SELL 100 4 2)
                               (run False [Submit 1 BUY 100 10 1]))) m))\<rparr>])"
proof -
  let ?ops = "[Submit 1 BUY 100 10 1, Submit 2 SELL 100 4 2]"
  let ?t = "\<lparr>buy_order_id = 1, sell_order_id = 2, price = 100, quantity = 4\<rparr>"
  let ?ops1 = "[Submit 1 BUY 100 10 1]"
  let ?a = "next_free (run False ?ops1)"
  let ?s = "snd (make_shared (Order_new 2 SELL 100 4 2) (run False ?ops1))"
  let ?s' = "the (match_iteration ?a ?s)"
  have d: "distinct (submitted_ids ?ops)" by code_simp
  have tin: "?t \<in> set (trades (run False ?ops))" by code_simp
  have d1: "distinct (submitted_ids (?ops1 @ [Submit 2 SELL 100 4 2]))" by code_simp
  have st: "match_steps 0 ?a ?s = Some ?s" by simp
  have nf: "\<not> isFilled (heap ?s ?a)" by code_simp
  have "case match_iteration ?a ?s of None \<Rightarrow> False | Some y \<Rightarrow> True" by code_simp
  then have it: "match_iteration ?a ?s = Some ?s'" by (rule is_Some_the)
  note T1 = trade_price_and_sides [where ops = ?ops and t = ?t and cb = False,
      THEN conjunct1, THEN mp, OF conjI [OF d tin], THEN conjunct1]
  then obtain m k where mk: "m < k" "k < next_free (run False ?ops)"
    "getSide (heap (run False ?ops) m) = opposite (getSide (heap (run False ?ops) k))"
    "price ?t = getPrice (heap (run False ?ops) m)"
    by blast
  from mk(4) have "(100 :: u64) = getPrice (heap (run False ?ops) m)" by simp
  with mk(1,2,3) have r1: "\<exists>m k. m < k \<and> k < next_free (run False ?ops) \<and>
      getSide (heap (run False ?ops) m) = opposite (getSide (heap (run False ?ops) k)) \<and>
      (100 :: u64) = getPrice (heap (run False ?ops) m)"
    by blast
  note T2 = trade_price_and_sides [where ops = ?ops1 and cb = False and i = 2 and sd = SELL
      and p = 100 and q = 4 and ts = 2 and j = 0 and s = ?s and s' = ?s',
      THEN conjunct2, THEN mp, OF conjI [OF d1 conjI [OF st conjI [OF nf it]]]]
  then obtain m' where m': "best_match ?a ?s = Some m'"
    "trades ?s' = trades ?s @
           [\<lparr>buy_order_id = (if SELL = BUY then 2 else getId (heap ?s m')),
             sell_order_id = (if SELL = BUY then getId (heap ?s m') else 2),
             price = getPrice (heap ?s m'),
             quantity = min (getRemainingQuantity (heap ?s ?a)) (getRemainingQuantity (heap ?s m'))\<rparr>]"
    by blast
  from m'(2) have "trades ?s' = trades ?s @
          [\<lparr>buy_order_id = getId (heap ?s m'), sell_order_id = 2,
            price = getPrice (heap ?s m'),
            quantity = min (getRemainingQuantity (heap ?s ?a)) (getRemainingQuantity (heap ?s m'))\<rparr>]"
    by simp
  with m'(1) have r2: "\<exists>m. best_match ?a ?s = Some m \<and>
        trades ?s' = trades ?s @
          [\<lparr>buy_order_id = getId (heap ?s m), sell_order_id = 2,
            price = getPrice (heap ?s m),
            quantity = min (getRemainingQuantity (heap ?s ?a)) (getRemainingQuantity (heap ?s m))\<rparr>]"
    by blast
  from d tin r1 d1 nf r2 show ?thesis by blast
qed

subsection \<open>Conservation of quantity\<close>

text \<open>
  C6, as stated, fails inside a pass of the matching loop: \<^verbatim>\<open>executeTrade\<close> appends
  the trade to the log and calls the trade callback before \<^verbatim>\<open>reduceQuantity\<close> runs on
  the two orders. Buy order 1 for 10 rests at price 100 and sell order 2 for 4 at
  price 100 is submitted: when \<^verbatim>\<open>executeTrade\<close> returns, the log holds the trade of
  quantity 4 between the two, and order 1 has original quantity 10, remaining
  quantity 10 and traded quantity 4.
\<close>

theorem conservation_counterexample:
  "distinct (submitted_ids ([Submit 1 BUY 100 10 1] @ [Submit 2 SELL 100 4 2])) \<and>
   match_steps 0 (next_free (run False [Submit 1 BUY 100 10 1]))
     (snd (make_shared (Order_new 2 SELL 100 4 2) (run False [Submit 1 BUY 100 10 1]))) =
     Some (snd (make_shared (Order_new 2 SELL 100 4 2) (run False [Submit 1 BUY 100 10 1]))) \<and>
   (\<exists>s1. iteration_executeTrade (next_free (run False [Submit 1 BUY 100 10 1]))
           (snd (make_shared (Order_new 2 SELL 100 4 2) (run False [Submit 1 BUY 100 10 1]))) = Some s1 \<and>
         trades s1 = [\<lparr>buy_order_id = 1, sell_order_id = 2, price = 100, quantity = 4\<rparr>] \<and>
         getId (heap s1 0) = 1 \<and> getQuantity (heap s1 0) = 10 \<and>
         getRemainingQuantity (heap s1 0) = 10 \<and>
         traded (trades s1) (getId (heap s1 0)) = 4 \<and>
         unat (getQuantity (heap s1 0)) \<noteq>
           unat (getRemainingQuantity (heap s1 0)) + traded (trades s1) (getId (heap s1 0)))"
proof -
  let ?a = "next_free (run False [Submit 1 BUY 100 10 1])"
  let ?s = "snd (make_shared (Order_new 2 SELL 100 4 2) (run False [Submit 1 BUY 100 10 1]))"
  let ?s1 = "the (iteration_executeTrade ?a ?s)"
  have d: "distinct (submitted_ids ([Submit 1 BUY 100 10 1] @ [Submit 2 SELL 100 4 2]))"
    by code_simp
  have st: "match_steps 0 ?a ?s = Some ?s" by simp
  have "case iteration_executeTrade ?a ?s of None \<Rightarrow> False | Some y \<Rightarrow> True" by code_simp
  then have it: "iteration_executeTrade ?a ?s = Some ?s1" by (rule is_Some_the)
  have tr: "trades ?s1 = [\<lparr>buy_order_id = 1, sell_order_id = 2, price = 100, quantity = 4\<rparr>]"
    by code_simp
  have id: "getId (heap ?s1 0) = 1" by code_simp
  have qu: "getQuantity (heap ?s1 0) = 10" by code_simp
  have re: "getRemainingQuantity (heap ?s1 0) = 10" by code_simp
  have td: "traded (trades ?s1) (getId (heap ?s1 0)) = 4"
    by (simp add: tr id traded_def)
  have ne: "unat (getQuantity (heap ?s1 0)) \<noteq>
           unat (getRemainingQuantity (heap ?s1 0)) + traded (trades ?s1) (getId (heap ?s1 0))"
    by (simp add: td qu re)
  from d st it tr id qu re td ne show ?thesis by blast
qed

text \<open>
  C6, amended. After every sequence of submit and cancel operations with distinct
  ids, that is whenever an operation has completed, for every order created so far:
  its original quantity is its remaining quantity plus the sum of the quantities of
  the trades of the log that carry its id (\<open>traded\<close>), so the remaining quantity is at
  most the original one; whatever operations follow, its remaining quantity does not
  grow, and its original quantity and its id stay as they are. And at every pass of
  the matching loop that trades, the trade \<open>t\<close> appended to the log carries the ids of
  the incoming order and of the selected maker \<open>m\<close>, has a positive quantity, the
  remaining quantities of exactly these two orders go down by the quantity of \<open>t\<close>,
  no other order changes, and the equation between original quantity, remaining
  quantity and traded quantity holds again for every order at the end of the pass.
  Inside such a pass, in the state \<open>s1\<close> in which \<^verbatim>\<open>executeTrade\<close> returns, the trade
  \<open>t\<close> is in the log and the store is as it was at the head of the pass: for the
  incoming order and for \<open>m\<close> the remaining quantity plus the traded quantity exceeds
  the original quantity by the quantity of \<open>t\<close>, and for every other order the
  equation holds.
\<close>

theorem quantity_conservation:
  "(distinct (submitted_ids ops) \<and> a < next_free (run cb ops) \<longrightarrow>
      unat (getQuantity (heap (run cb ops) a)) =
        unat (getRemainingQuantity (heap (run cb ops) a)) +
        traded (trades (run cb ops)) (getId (heap (run cb ops) a)) \<and>
      getRemainingQuantity (heap (run cb ops) a) \<le> getQuantity (heap (run cb ops) a) \<and>
      getRemainingQuantity (heap (run cb (ops @ ops')) a) \<le>
        getRemainingQuantity (heap (run cb ops) a) \<and>
      getQuantity (heap (run cb (ops @ ops')) a) = getQuantity (heap (run cb ops) a) \<and>
      getId (heap (run cb (ops @ ops')) a) = getId (heap (run cb ops) a)) \<and>
   (distinct (submitted_ids (ops @ [Submit i sd p q ts])) \<and>
    match_steps j (next_free (run cb ops))
      (snd (make_shared (Order_new i sd p q ts) (run cb ops))) = Some s \<and>
    \<not> isFilled (heap s (next_free (run cb ops))) \<and>
    match_iteration (next_free (run cb ops)) s = Some s' \<longrightarrow>
      (\<exists>m t. best_match (next_free (run cb ops)) s = Some m \<and>
         trades s' = trades s @ [t] \<and>
         {buy_order_id t, sell_order_id t} = {i, getId (heap s m)} \<and>
         0 < quantity t \<and>
         unat (getRemainingQuantity (heap s' (next_free (run cb ops)))) + unat (quantity t) =
           unat (getRemainingQuantity (heap s (next_free (run cb ops)))) \<and>
         unat (getRemainingQuantity (heap s' m)) + unat (quantity t) =
           unat (getRemainingQuantity (heap s m)) \<and>
         (\<forall>c. c \<noteq> next_free (run cb ops) \<and> c \<noteq> m \<longrightarrow> heap s' c = heap s c) \<and>
         (\<forall>c<next_free s'.
            unat (getQuantity (heap s' c)) =
              unat (getRemainingQuantity (heap s' c)) + traded (trades s') (getId (heap s' c))))) \<and>
   (distinct (submitted_ids (ops @ [Submit i sd p q ts])) \<and>
    match_steps j (next_free (run cb ops))
      (snd (make_shared (Order_new i sd p q ts) (run cb ops))) = Some s \<and>
    \<not> isFilled (heap s (next_free (run cb ops))) \<and>
    iteration_executeTrade (next_free (run cb ops)) s = Some s1 \<longrightarrow>
      (\<exists>m t s'. best_match (next_free (run cb ops)) s = Some m \<and>
         match_iteration (next_free (run cb ops)) s = Some s' \<and>
         trades s1 = trades s @ [t] \<and> trades s' = trades s1 \<and>
         heap s1 = heap s \<and> next_free s1 = next_free s \<and>
         0 < quantity t \<and>
         unat (getQuantity (heap s1 (next_free (run cb ops)))) + unat (quantity t) =
           unat (getRemainingQuantity (heap s1 (next_free (run cb ops)))) +
           traded (trades s1) (getId (heap s1 (next_free (run cb ops)))) \<and>
         unat (getQuantity (heap s1 m)) + unat (quantity t) =
           unat (getRemainingQuantity (heap s1 m)) + traded (trades s1) (getId (heap s1 m)) \<and>
         (\<forall>c<next_free s1. c \<noteq> next_free (run cb ops) \<and> c \<noteq> m \<longrightarrow>
            unat (getQuantity (heap s1 c)) =
              unat (getRemainingQuantity (heap s1 c)) + traded (trades s1) (getId (heap s1 c)))))"
proof (intro conjI impI; (elim conjE)?)
  let ?s = "run cb ops" and ?s' = "run cb (ops @ ops')"
  assume d: "distinct (submitted_ids ops)" and a: "a < next_free ?s"
  from run_inv [OF d, of cb] have "conserved ?s" by (simp add: engine_ok_def)
  with a show c: "unat (getQuantity (heap ?s a)) =
        unat (getRemainingQuantity (heap ?s a)) + traded (trades ?s) (getId (heap ?s a))"
    by (simp add: conserved_def)
  then show "getRemainingQuantity (heap ?s a) \<le> getQuantity (heap ?s a)"
    by (simp add: word_le_nat_alt)
  from foldl_exec_later [OF a, of ops'] have "later (heap ?s' a) (heap ?s a)"
    by (simp add: run_append)
  then show "getRemainingQuantity (heap ?s' a) \<le> getRemainingQuantity (heap ?s a)"
    and "getQuantity (heap ?s' a) = getQuantity (heap ?s a)"
    and "getId (heap ?s' a) = getId (heap ?s a)"
    by (simp_all add: later_def)
next
  let ?a = "next_free (run cb ops)"
  assume d: "distinct (submitted_ids (ops @ [Submit i sd p q ts]))"
    and st: "match_steps j ?a (snd (make_shared (Order_new i sd p q ts) (run cb ops))) = Some s"
    and nf: "\<not> isFilled (heap s ?a)" and it: "match_iteration ?a s = Some s'"
  from submission_matching_ok [OF d st] have li: "matching_ok ?a s" .
  note f = submission_fields [OF st]
  from best_match_exists [OF it] obtain m where bm: "best_match ?a s = Some m" by blast
  define q' where "q' = min (getRemainingQuantity (heap s ?a)) (getRemainingQuantity (heap s m))"
  note ts = trade_step [OF li nf it bm q'_def]
  define t where "t = \<lparr>buy_order_id = getId (heap s (if getSide (heap s ?a) = BUY then ?a else m)),
         sell_order_id = getId (heap s (if getSide (heap s ?a) = BUY then m else ?a)),
         price = getPrice (heap s m), quantity = q'\<rparr>"
  from ts(1) have ma: "m \<noteq> ?a" by simp
  have qa: "q' \<le> getRemainingQuantity (heap s ?a)" and qm: "q' \<le> getRemainingQuantity (heap s m)"
    by (simp_all add: q'_def)
  have 1: "trades s' = trades s @ [t]" using ts(8) by (simp add: t_def)
  have 2: "{buy_order_id t, sell_order_id t} = {i, getId (heap s m)}"
    using f(1) by (cases "getSide (heap s ?a) = BUY") (auto simp: t_def)
  have 3: "0 < quantity t" using ts(7) by (simp add: t_def word_neq_0_conv)
  have 4: "unat (getRemainingQuantity (heap s' ?a)) + unat (quantity t) =
           unat (getRemainingQuantity (heap s ?a))"
    using ma unat_sub_le [OF qa] by (simp add: ts(9) reduceQuantity_remaining [OF qa] t_def)
  have 5: "unat (getRemainingQuantity (heap s' m)) + unat (quantity t) =
           unat (getRemainingQuantity (heap s m))"
    using unat_sub_le [OF qm] by (simp add: ts(9) reduceQuantity_remaining [OF qm] t_def)
  have 6: "\<forall>c. c \<noteq> ?a \<and> c \<noteq> m \<longrightarrow> heap s' c = heap s c"
    by (simp add: ts(9))
  from ts(10) have "conserved s'" by (simp add: matching_ok_def engine_ok_def)
  then have 7: "\<forall>c<next_free s'.
            unat (getQuantity (heap s' c)) =
              unat (getRemainingQuantity (heap s' c)) + traded (trades s') (getId (heap s' c))"
    by (simp add: conserved_def)
  from bm 1 2 3 4 5 6 7
  show "\<exists>m t. best_match ?a s = Some m \<and>
         trades s' = trades s @ [t] \<and>
         {buy_order_id t, sell_order_id t} = {i, getId (heap s m)} \<and>
         0 < quantity t \<and>
         unat (getRemainingQuantity (heap s' ?a)) + unat (quantity t) =
           unat (getRemainingQuantity (heap s ?a)) \<and>
         unat (getRemainingQuantity (heap s' m)) + unat (quantity t) =
           unat (getRemainingQuantity (heap s m)) \<and>
         (\<forall>c. c \<noteq> ?a \<and> c \<noteq> m \<longrightarrow> heap s' c = heap s c) \<and>
         (\<forall>c<next_free s'.
            unat (getQuantity (heap s' c)) =
              unat (getRemainingQuantity (heap s' c)) + traded (trades s') (getId (heap s' c)))"
    by blast
next
  let ?a = "next_free (run cb ops)"
  assume d: "distinct (submitted_ids (ops @ [Submit i sd p q ts]))"
    and st: "match_steps j ?a (snd (make_shared (Order_new i sd p q ts) (run cb ops))) = Some s"
    and nf: "\<not> isFilled (heap s ?a)" and ie: "iteration_executeTrade ?a s = Some s1"
  from submission_matching_ok [OF d st] have li: "matching_ok ?a s" .
  then have nx: "Suc ?a = next_free s" by (simp add: matching_ok_def)
  define q' where "q' = (\<lambda>m. min (getRemainingQuantity (heap s ?a)) (getRemainingQuantity (heap s m)))"
  from ie obtain m bp where
    fbm: "find_best_match (heap s) ?a (opposing ?a s) (None, 0) = (Some m, bp)"
    and s1: "s1 = executeTrade ?a m bp (q' m) s"
    and it: "match_iteration ?a s = Some (settle ?a m bp (q' m) s)"
    unfolding q'_def by (rule iteration_executeTrade_Some)
  define s' where "s' = settle ?a m bp (q' m) s"
  from it have it': "match_iteration ?a s = Some s'" by (simp add: s'_def)
  from fbm have bm: "best_match ?a s = Some m" by (simp add: best_match_def)
  have qd: "q' m = min (getRemainingQuantity (heap s ?a)) (getRemainingQuantity (heap s m))"
    by (simp add: q'_def)
  note ts = trade_step [OF li nf it' bm qd]
  define t where "t = \<lparr>buy_order_id = getId (heap s (if getSide (heap s ?a) = BUY then ?a else m)),
         sell_order_id = getId (heap s (if getSide (heap s ?a) = BUY then m else ?a)),
         price = bp, quantity = q' m\<rparr>"
  from ts(1) have ma: "m \<noteq> ?a" by simp
  have qa: "q' m \<le> getRemainingQuantity (heap s ?a)" and qm: "q' m \<le> getRemainingQuantity (heap s m)"
    by (simp_all add: q'_def)
  have 1: "trades s1 = trades s @ [t]" by (simp add: s1 trades_executeTrade t_def)
  have 2: "trades s' = trades s1" by (simp add: s'_def s1 settle_fields trades_executeTrade)
  have 3: "heap s1 = heap s" by (simp add: s1)
  have 4: "next_free s1 = next_free s" by (simp add: s1)
  have 5: "0 < quantity t" using ts(7) by (simp add: t_def word_neq_0_conv)
  from ts(10) have "conserved s'" by (simp add: matching_ok_def engine_ok_def)
  moreover have nx': "next_free s' = next_free s" by (simp add: s'_def settle_fields)
  ultimately have cons: "unat (getQuantity (heap s' c)) =
      unat (getRemainingQuantity (heap s' c)) + traded (trades s1) (getId (heap s' c))"
    if "c < next_free s" for c
    using that by (simp add: conserved_def 2)
  have 6: "unat (getQuantity (heap s1 ?a)) + unat (quantity t) =
           unat (getRemainingQuantity (heap s1 ?a)) + traded (trades s1) (getId (heap s1 ?a))"
    using cons [of ?a] nx ma unat_sub_le [OF qa]
    by (simp add: 3 ts(9) reduceQuantity_remaining [OF qa] t_def)
  have 7: "unat (getQuantity (heap s1 m)) + unat (quantity t) =
           unat (getRemainingQuantity (heap s1 m)) + traded (trades s1) (getId (heap s1 m))"
    using cons [of m] nx ts(1) unat_sub_le [OF qm]
    by (simp add: 3 ts(9) reduceQuantity_remaining [OF qm] t_def)
  have 8: "\<forall>c<next_free s1. c \<noteq> ?a \<and> c \<noteq> m \<longrightarrow>
            unat (getQuantity (heap s1 c)) =
              unat (getRemainingQuantity (heap s1 c)) + traded (trades s1) (getId (heap s1 c))"
  proof (intro allI impI)
    fix c
    assume c: "c < next_free s1" and ne: "c \<noteq> ?a \<and> c \<noteq> m"
    from ne have "heap s' c = heap s c" by (simp add: ts(9))
    with cons [of c] c show "unat (getQuantity (heap s1 c)) =
        unat (getRemainingQuantity (heap s1 c)) + traded (trades s1) (getId (heap s1 c))"
      by (simp add: 3 4)
  qed
  from bm it' 1 2 3 4 5 6 7 8
  show "\<exists>m t s'. best_match ?a s = Some m \<and>
         match_iteration ?a s = Some s' \<and>
         trades s1 = trades s @ [t] \<and> trades s' = trades s1 \<and>
         heap s1 = heap s \<and> next_free s1 = next_free s \<and>
         0 < quantity t \<and>
         unat (getQuantity (heap s1 ?a)) + unat (quantity t) =
           unat (getRemainingQuantity (heap s1 ?a)) + traded (trades s1) (getId (heap s1 ?a)) \<and>
         unat (getQuantity (heap s1 m)) + unat (quantity t) =
           unat (getRemainingQuantity (heap s1 m)) + traded (trades s1) (getId (heap s1 m)) \<and>
         (\<forall>c<next_free s1. c \<noteq> ?a \<and> c \<noteq> m \<longrightarrow>
            unat (getQuantity (heap s1 c)) =
              unat (getRemainingQuantity (heap s1 c)) + traded (trades s1) (getId (heap s1 c)))"
    by blast
qed

theorem quantity_conservation_witness:
  "distinct (submitted_ids [Submit 1 BUY 100 10 1, Submit 2 SELL 100 4 2]) \<and>
   0 < next_free (run False [Submit 1 BUY 100 10 1, Submit 2 SELL 100 4 2]) \<and>
   unat (getQuantity (heap (run False [Submit 1 BUY 100 10 1, Submit 2 SELL 100 4 2]) 0)) =
     unat (getRemainingQuantity (heap (run False [Submit 1 BUY 100 10 1, Submit 2 SELL 100 4 2]) 0)) +
     traded (trades (run False [Submit 1 BUY 100 10 1, Submit 2 SELL 100 4 2]))
       (getId (heap (run False [Submit 1 BUY 100 10 1, Submit 2 SELL 100 4 2]) 0)) \<and>
   getRemainingQuantity (heap (run False ([Submit 1 BUY 100 10 1, Submit 2 SELL 100 4 2] @
        [Submit 3 SELL 100 3 3])) 0) \<le>
     getRemainingQuantity (heap (run False [Submit 1 BUY 100 10 1, Submit 2 SELL 100 4 2]) 0) \<and>
   distinct (submitted_ids ([Submit 1 BUY 100 10 1] @ [Submit 2 SELL 100 4 2])) \<and>
   \<not> isFilled (heap (snd (make_shared (Order_new 2 SELL 100 4 2) (run False [Submit 1 BUY 100 10 1])))
        (next_free (run False [Submit 1 BUY 100 10 1]))) \<and>
   (\<exists>m t. best_match (next_free (run False [Submit 1 BUY 100 10 1]))
          (snd (make_shared (Order_new 2 SELL 100 4 2) (run False [Submit 1 BUY 100 10 1]))) = Some m \<and>
        trades (the (match_iteration (next_free (run False [Submit 1 BUY 100 10 1]))
          (snd (make_shared (Order_new 2 SELL 100 4 2) (run False [Submit 1 BUY 100 10 1]))))) =
        trades (snd (make_shared (Order_new 2 SELL 100 4 2) (run False [Submit 1 BUY 100 10 1]))) @ [t] \<and>
        unat (getRemainingQuantity (heap (the (match_iteration (next_free (run False [Submit 1 BUY 100 10 1]))
          (snd (make_shared (Order_new 2 SELL 100 4 2) (run False [Submit 1 BUY 100 10 1]))))) m)) +
          unat (quantity t) =
        unat (getRemainingQuantity (heap (snd (make_shared (Order_new 2 SELL 100 4 2)
          (run False [Submit 1 BUY 100 10 1]))) m))) \<and>
   (\<exists>s1 m t. iteration_executeTrade (next_free (run False [Submit 1 BUY 100 10 1]))
          (snd (make_shared (Order_new 2 SELL 100 4 2) (run False [Submit 1 BUY 100 10 1]))) = Some s1 \<and>
        best_match (next_free (run False [Submit 1 BUY 100 10 1]))
          (snd (make_shared (Order_new 2 SELL 100 4 2) (run False [Submit 1 BUY 100 10 1]))) = Some m \<and>
        trades s1 =
          trades (snd (make_shared (Order_new 2 SELL 100 4 2) (run False [Submit 1 BUY 100 10 1]))) @ [t] \<and>
        0 < quantity t \<and>
        unat (getQuantity (heap s1 m)) + unat (quantity t) =
          unat (getRemainingQuantity (heap s1 m)) + traded (trades s1) (getId (heap s1 m)))"
proof -
  let ?ops = "[Submit 1 BUY 100 10 1, Submit 2 SELL 100 4 2]"
  let ?ops1 = "[Submit 1 BUY 100 10 1]"
  let ?a = "next_free (run False ?ops1)"
  let ?s = "snd (make_shared (Order_new 2 SELL 100 4 2) (run False ?ops1))"
  let ?s' = "the (match_iteration ?a ?s)"
  have d: "distinct (submitted_ids ?ops)" by code_simp
  have a: "0 < next_free (run False ?ops)" by code_simp
  have d1: "distinct (submitted_ids (?ops1 @ [Submit 2 SELL 100 4 2]))" by code_simp
  have st: "match_steps 0 ?a ?s = Some ?s" by simp
  have nf: "\<not> isFilled (heap ?s ?a)" by code_simp
  have "case match_iteration ?a ?s of None \<Rightarrow> False | Some y \<Rightarrow> True" by code_simp
  then have it: "match_iteration ?a ?s = Some ?s'" by (rule is_Some_the)
  note T1 = quantity_conservation [where ops = ?ops and cb = False and a = 0
      and ops' = "[Submit 3 SELL 100 3 3]", THEN conjunct1, THEN mp, OF conjI [OF d a]]
  note T2 = quantity_conservation [where ops = ?ops1 and cb = False and i = 2 and sd = SELL
      and p = 100 and q = 4 and ts = 2 and j = 0 and s = ?s and s' = ?s',
      THEN conjunct2, THEN conjunct1, THEN mp, OF conjI [OF d1 conjI [OF st conjI [OF nf it]]]]
  from T1 have r1: "unat (getQuantity (heap (run False ?ops) 0)) =
     unat (getRemainingQuantity (heap (run False ?ops) 0)) +
     traded (trades (run False ?ops)) (getId (heap (run False ?ops) 0))"
    and r2: "getRemainingQuantity (heap (run False (?ops @ [Submit 3 SELL 100 3 3])) 0) \<le>
     getRemainingQuantity (heap (run False ?ops) 0)"
    by blast+
  from T2 have r3: "\<exists>m t. best_match ?a ?s = Some m \<and> trades ?s' = trades ?s @ [t] \<and>
        unat (getRemainingQuantity (heap ?s' m)) + unat (quantity t) =
        unat (getRemainingQuantity (heap ?s m))"
    by blast
  have "case iteration_executeTrade ?a ?s of None \<Rightarrow> False | Some y \<Rightarrow> True" by code_simp
  then have ie: "iteration_executeTrade ?a ?s = Some (the (iteration_executeTrade ?a ?s))"
    by (rule is_Some_the)
  note T3 = quantity_conservation [where ops = ?ops1 and cb = False and i = 2 and sd = SELL
      and p = 100 and q = 4 and ts = 2 and j = 0 and s = ?s
      and ?s1.0 = "the (iteration_executeTrade ?a ?s)",
      THEN conjunct2, THEN conjunct2, THEN mp, OF conjI [OF d1 conjI [OF st conjI [OF nf ie]]]]
  from T3 ie have r4: "\<exists>s1 m t. iteration_executeTrade ?a ?s = Some s1 \<and>
        best_match ?a ?s = Some m \<and> trades s1 = trades ?s @ [t] \<and> 0 < quantity t \<and>
        unat (getQuantity (heap s1 m)) + unat (quantity t) =
          unat (getRemainingQuantity (heap s1 m)) + traded (trades s1) (getId (heap s1 m))"
    by blast
  from d a r1 r2 d1 nf r3 r4 show ?thesis by blast
qed

subsection \<open>The residue of a submission\<close>

lemma filled_not_queued:
  assumes iv: "engine_ok s" and a: "a < next_free s" and f: "isFilled (heap s a)"
  shows "a \<notin> set (queued sd (order_book s))"
proof
  assume "a \<in> set (queued sd (order_book s))"
  from iv have lev: "levels_ok (heap s) (order_book s)" and srt: "maps_sorted (order_book s)"
    by (simp_all add: engine_ok_def book_ok_def)
  from \<open>a \<in> set (queued sd (order_book s))\<close> obtain p l where
    l: "lv (order_book s) sd p = Some l" and al: "a \<in> set (orders l)"
    by (auto simp: queued_lv [OF srt])
  from levels_okD(5) [OF lev l al] filled_not_indexed [OF iv a f] show False by simp
qed

lemma queued_side:
  assumes iv: "engine_ok s" and "a \<in> set (queued sd (order_book s))"
  shows "getSide (heap s a) = sd"
proof -
  from iv have lev: "levels_ok (heap s) (order_book s)" and srt: "maps_sorted (order_book s)"
    by (simp_all add: engine_ok_def book_ok_def)
  from assms(2) obtain p l where
    l: "lv (order_book s) sd p = Some l" and al: "a \<in> set (orders l)"
    by (auto simp: queued_lv [OF srt])
  from levels_okD(3) [OF lev l al] show ?thesis .
qed

text \<open>
  C3. Let an order be submitted after any sequence of submit and cancel operations,
  all ids distinct, and let \<open>after_match\<close> be the state in which the loop of
  \<^verbatim>\<open>matchOrder\<close> exits. If the remaining quantity of the order is then positive,
  \<^verbatim>\<open>submitOrder\<close> adds it with \<^verbatim>\<open>OrderBook::addOrder\<close>: the index maps its id to it, it
  is the last order of the queue of the level at its limit price on its own side, and
  it is in no queue of the other side. If its remaining quantity is zero the book
  stays as the loop left it, and the order is neither in the index nor in any queue,
  then and after any further operations.
\<close>

theorem residue_rests_iff_unfilled:
  assumes "distinct (submitted_ids (ops @ [Submit i sd p q ts]))"
  shows
   "heap (run cb (ops @ [Submit i sd p q ts])) =
      heap (after_match (next_free (run cb ops))
              (snd (make_shared (Order_new i sd p q ts) (run cb ops)))) \<and>
    (if 0 < getRemainingQuantity
              (heap (after_match (next_free (run cb ops))
                 (snd (make_shared (Order_new i sd p q ts) (run cb ops)))) (next_free (run cb ops)))
     then order_book (run cb (ops @ [Submit i sd p q ts])) =
            snd (OrderBook_addOrder
                   (heap (after_match (next_free (run cb ops))
                      (snd (make_shared (Order_new i sd p q ts) (run cb ops)))))
                   (Some (next_free (run cb ops)))
                   (order_book (after_match (next_free (run cb ops))
                      (snd (make_shared (Order_new i sd p q ts) (run cb ops)))))) \<and>
          order_map (order_book (run cb (ops @ [Submit i sd p q ts]))) i =
            Some (next_free (run cb ops)) \<and>
          (\<exists>l. (p, l) \<in> set (getPriceLevelMap sd (order_book (run cb (ops @ [Submit i sd p q ts])))) \<and>
               orders l \<noteq> [] \<and> last (orders l) = next_free (run cb ops)) \<and>
          next_free (run cb ops) \<notin>
            set (queued (opposite sd) (order_book (run cb (ops @ [Submit i sd p q ts]))))
     else order_book (run cb (ops @ [Submit i sd p q ts])) =
            order_book (after_match (next_free (run cb ops))
                          (snd (make_shared (Order_new i sd p q ts) (run cb ops)))) \<and>
          (\<forall>ops'. distinct (submitted_ids (ops @ [Submit i sd p q ts] @ ops')) \<longrightarrow>
             order_map (order_book (run cb (ops @ [Submit i sd p q ts] @ ops'))) i = None \<and>
             (\<forall>sd'. next_free (run cb ops) \<notin>
                set (queued sd' (order_book (run cb (ops @ [Submit i sd p q ts] @ ops')))))))"
proof -
  let ?s0 = "run cb ops"
  let ?a = "next_free ?s0"
  let ?s1 = "snd (make_shared (Order_new i sd p q ts) ?s0)"
  let ?s2 = "after_match ?a ?s1"
  let ?S = "run cb (ops @ [Submit i sd p q ts])"
  have S: "?S = snd (submitOrder (Some ?a) ?s1)"
    by (simp only: run_snoc exec_Submit)
  have hS: "heap ?S = heap ?s2" by (simp add: S submitOrder_heap)
  have nS: "next_free ?S = Suc ?a"
    by (simp add: S submitOrder_heap make_shared_fields)
  from after_match_later(1) [of ?a ?s1 ?a]
  have f: "getId (heap ?s2 ?a) = i" "getSide (heap ?s2 ?a) = sd" "getPrice (heap ?s2 ?a) = p"
    by (simp_all add: later_def make_shared_fields)
  from run_inv [OF assms, of cb] have ivS: "engine_ok ?S" by simp
  show ?thesis
  proof (cases "0 < getRemainingQuantity (heap ?s2 ?a)")
    case True
    then have nf: "\<not> isFilled (heap ?s2 ?a)" by (simp add: isFilled_def)
    define b3 where "b3 = snd (OrderBook_addOrder (heap ?s2) (Some ?a) (order_book ?s2))"
    from nf have bS: "order_book ?S = b3"
      by (simp add: S submitOrder_unfold b3_def)
    note spec = addOrder_spec [OF b3_def]
    have 1: "order_map b3 i = Some ?a" by (simp add: spec(1) f)
    define l where "l = PriceLevel_addOrder (heap ?s2) ?a
          (case lv (order_book ?s2) sd p of Some l \<Rightarrow> l | None \<Rightarrow> PriceLevel_new p)"
    have "lv b3 sd p = Some l" by (simp add: spec(2) [of sd p] f l_def cong: option.case_cong)
    then have 2: "(p, l) \<in> set (getPriceLevelMap sd b3)"
      by (auto simp: lv_def dest: map_of_SomeD)
    have 3: "orders l \<noteq> []" "last (orders l) = ?a"
      by (simp_all add: l_def sum_list_PriceLevel_addOrder)
    have 4: "?a \<notin> set (queued (opposite sd) b3)"
    proof
      assume "?a \<in> set (queued (opposite sd) b3)"
      with queued_side [OF ivS, of ?a "opposite sd"] have "getSide (heap ?S ?a) = opposite sd"
        by (simp add: bS)
      then have "getSide (heap ?s2 ?a) = opposite sd" by (simp only: hS)
      with f(2) have "sd = opposite sd" by simp
      then show False by (cases sd) (simp_all add: opposite_def)
    qed
    from True hS bS 1 2 3 4 show ?thesis
      unfolding b3_def [symmetric] by (simp only: if_True) blast
  next
    case False
    then have fl: "isFilled (heap ?s2 ?a)" by (auto simp: isFilled_def word_gt_0)
    then have bS: "order_book ?S = order_book ?s2"
      by (simp add: S submitOrder_unfold)
    have later': "order_map (order_book (run cb (ops @ [Submit i sd p q ts] @ ops'))) i = None \<and>
             (\<forall>sd'. ?a \<notin> set (queued sd' (order_book (run cb (ops @ [Submit i sd p q ts] @ ops')))))"
      if d: "distinct (submitted_ids (ops @ [Submit i sd p q ts] @ ops'))" for ops'
    proof -
      let ?S' = "run cb (ops @ [Submit i sd p q ts] @ ops')"
      from run_inv [OF d, of cb] have iv: "engine_ok ?S'" by simp
      have S': "?S' = foldl exec ?S ops'" by (simp add: run_def)
      have "?a < next_free ?S" by (simp add: nS)
      from foldl_exec_later [OF this, of ops']
      have lt: "later (heap ?S' ?a) (heap ?S ?a)" and n: "?a < next_free ?S'"
        unfolding S' by (simp_all only: nS Suc_le_eq)
      from lt fl have fl': "isFilled (heap ?S' ?a)"
        by (simp add: later_def isFilled_def hS)
      from lt f(1) have id: "getId (heap ?S' ?a) = i" by (simp add: later_def hS)
      from filled_not_indexed [OF iv n fl'] filled_not_queued [OF iv n fl'] id
      show ?thesis by simp
    qed
    from False hS bS later' show ?thesis by (simp only: if_False) blast
  qed
qed

theorem residue_rests_iff_unfilled_witness:
  "distinct (submitted_ids ([Submit 1 BUY 100 10 1] @ [Submit 2 SELL 100 14 2])) \<and>
   0 < getRemainingQuantity
         (heap (after_match (next_free (run False [Submit 1 BUY 100 10 1]))
            (snd (make_shared (Order_new 2 SELL 100 14 2) (run False [Submit 1 BUY 100 10 1]))))
          (next_free (run False [Submit 1 BUY 100 10 1]))) \<and>
   order_map (order_book (run False ([Submit 1 BUY 100 10 1] @ [Submit 2 SELL 100 14 2]))) 2 =
     Some (next_free (run False [Submit 1 BUY 100 10 1])) \<and>
   distinct (submitted_ids ([Submit 1 BUY 100 10 1] @ [Submit 2 SELL 100 4 2])) \<and>
   \<not> 0 < getRemainingQuantity
         (heap (after_match (next_free (run False [Submit 1 BUY 100 10 1]))
            (snd (make_shared (Order_new 2 SELL 100 4 2) (run False [Submit 1 BUY 100 10 1]))))
          (next_free (run False [Submit 1 BUY 100 10 1]))) \<and>
   distinct (submitted_ids ([Submit 1 BUY 100 10 1] @ [Submit 2 SELL 100 4 2] @ [Submit 3 SELL 100 3 3])) \<and>
   order_map (order_book (run False
      ([Submit 1 BUY 100 10 1] @ [Submit 2 SELL 100 4 2] @ [Submit 3 SELL 100 3 3]))) 2 = None"
proof -
  let ?ops = "[Submit 1 BUY 100 10 1]"
  let ?a = "next_free (run False ?ops)"
  have d1: "distinct (submitted_ids (?ops @ [Submit 2 SELL 100 14 2]))" by code_simp
  have c1: "0 < getRemainingQuantity
         (heap (after_match ?a (snd (make_shared (Order_new 2 SELL 100 14 2) (run False ?ops)))) ?a)"
    by code_simp
  have d2: "distinct (submitted_ids (?ops @ [Submit 2 SELL 100 4 2]))" by code_simp
  have c2: "\<not> 0 < getRemainingQuantity
         (heap (after_match ?a (snd (make_shared (Order_new 2 SELL 100 4 2) (run False ?ops)))) ?a)"
    by code_simp
  have d3: "distinct (submitted_ids (?ops @ [Submit 2 SELL 100 4 2] @ [Submit 3 SELL 100 3 3]))"
    by code_simp
  note T1 = residue_rests_iff_unfilled [OF d1, of False, THEN conjunct2]
  note T2 = residue_rests_iff_unfilled [OF d2, of False, THEN conjunct2]
  note T1' = T1 [unfolded if_P [OF c1]]
  note T2' = T2 [unfolded if_not_P [OF c2]]
  from T1' have r1: "order_map (order_book (run False (?ops @ [Submit 2 SELL 100 14 2]))) 2 = Some ?a"
    by (elim conjE)
  from T2' d3 have r2: "order_map (order_book (run False
      (?ops @ [Submit 2 SELL 100 4 2] @ [Submit 3 SELL 100 3 3]))) 2 = None"
    by blast
  from d1 c1 r1 d2 c2 d3 r2 show ?thesis by blast
qed

end
